theory Spec2Isabelle
  imports Main "HOL-Library.Word"
begin

unbundle bit_operations_syntax

section \<open>Machine types and memory\<close>

text \<open>
  The fixed-width types of \<^verbatim>\<open>turbogorilla_chunk.c\<close>: \<^verbatim>\<open>u_int64_t\<close> and
  \<^verbatim>\<open>size_t\<close> are 64-bit words, \<^verbatim>\<open>unsigned int\<close> is a 32-bit word. A
  \<^verbatim>\<open>double\<close> is carried as its 64-bit pattern: the chunk only ever copies values,
  it never computes with them.
\<close>

type_synonym u_int64_t = "64 word"
type_synonym size_t = "64 word"
type_synonym unsigned_int = "32 word"
type_synonym double = "64 word"

text \<open>
  Modelled from the spec: \<^verbatim>\<open>timestamp_t\<close> is declared in a header that is not part of
  the sources at hand; the spec gives timestamps as unsigned 64-bit integers.
\<close>

type_synonym timestamp_t = "64 word"

text \<open>
  Modelled from the spec: the macro \<^verbatim>\<open>SAMPLE_SIZE\<close> is declared in a header that is not
  part of the sources at hand; the spec gives it as the fixed per-sample byte cost
  \<^verbatim>\<open>sizeof(timestamp) + sizeof(value)\<close>, 8 + 8 = 16 bytes.
\<close>

definition SAMPLE_SIZE :: size_t where
  "SAMPLE_SIZE = 16"

text \<open>
  What C leaves undefined is a value of the model: an access outside an allocation, the
  overflow of a signed counter, and a primitive reader that finds no item of the kind it
  was asked for.
\<close>

datatype fault = OutOfBounds | SignedOverflow | StreamFault

datatype ChunkResult = CR_OK | CR_ERR | CR_END

text \<open>
  A buffer is the list of the 8-byte cells of its allocation: an allocation of \<open>b\<close> bytes
  has \<open>b div 8\<close> cells (trailing bytes that hold no whole cell are never addressed by the
  code). Memory that \<^verbatim>\<open>malloc\<close> hands out is not initialised: the bits found there are a
  parameter of every allocating operation, so that every statement holds for whatever
  they are.
\<close>

record fresh_mem =
  fresh_start_ts :: timestamp_t
  fresh_ts :: "nat \<Rightarrow> u_int64_t"
  fresh_values :: "nat \<Rightarrow> double"

definition malloc_cells :: "(nat \<Rightarrow> 64 word) \<Rightarrow> size_t \<Rightarrow> 64 word list" where
  "malloc_cells junk bytes = map junk [0..<unat bytes div 8]"

definition realloc_cells :: "(nat \<Rightarrow> 64 word) \<Rightarrow> 64 word list \<Rightarrow> size_t \<Rightarrow> 64 word list" where
  "realloc_cells junk old bytes =
     take (unat bytes div 8) old @ map junk [length old..<unat bytes div 8]"

definition read_cell :: "'a list \<Rightarrow> nat \<Rightarrow> fault + 'a" where
  "read_cell buf i = (if i < length buf then Inr (buf ! i) else Inl OutOfBounds)"

definition write_cell :: "'a list \<Rightarrow> nat \<Rightarrow> 'a \<Rightarrow> fault + 'a list" where
  "write_cell buf i v = (if i < length buf then Inr (buf[i := v]) else Inl OutOfBounds)"

section \<open>The chunk\<close>

record TurboGorilla_Chunk =
  start_ts :: timestamp_t
  num_samples :: unsigned_int
  size_b :: size_t
  buffer_in_use :: bool
  buffer_ts :: "u_int64_t list"
  buffer_values :: "double list"

definition TurboGorilla_NewChunk :: "fresh_mem \<Rightarrow> size_t \<Rightarrow> TurboGorilla_Chunk" where
  "TurboGorilla_NewChunk mem sz =
     (let array_size = sz div 2
      in \<lparr>start_ts = fresh_start_ts mem,
          num_samples = 0,
          size_b = sz,
          buffer_in_use = True,
          buffer_ts = malloc_cells (fresh_ts mem) array_size,
          buffer_values = malloc_cells (fresh_values mem) array_size\<rparr>)"

definition IsChunkFull :: "TurboGorilla_Chunk \<Rightarrow> bool" where
  "IsChunkFull chunk \<longleftrightarrow> (ucast (num_samples chunk) :: size_t) = size_b chunk div SAMPLE_SIZE"

definition TurboGorilla_NumOfSample :: "TurboGorilla_Chunk \<Rightarrow> u_int64_t" where
  "TurboGorilla_NumOfSample chunk = ucast (num_samples chunk)"

definition TurboGorilla_GetLastTimestamp :: "TurboGorilla_Chunk \<Rightarrow> fault + timestamp_t" where
  "TurboGorilla_GetLastTimestamp uChunk =
     (if num_samples uChunk = 0 then Inr (- 1)
      else read_cell (buffer_ts uChunk) (unat (num_samples uChunk - 1)))"

definition TurboGorilla_GetFirstTimestamp :: "TurboGorilla_Chunk \<Rightarrow> fault + timestamp_t" where
  "TurboGorilla_GetFirstTimestamp uChunk =
     (if num_samples uChunk = 0 then Inr (- 1)
      else read_cell (buffer_ts uChunk) 0)"

text \<open>
  The append path. The position written is \<open>num_samples\<close>; the C code does not compare
  it with the allocation, so a write behind the allocation is a fault of the model.
  The counter is an \<^verbatim>\<open>unsigned int\<close> and its increment wraps.
\<close>

definition TurboGorilla_AddSampleOptimized ::
  "TurboGorilla_Chunk \<Rightarrow> u_int64_t \<Rightarrow> double \<Rightarrow> fault + (ChunkResult \<times> TurboGorilla_Chunk)" where
  "TurboGorilla_AddSampleOptimized regChunk timestamp value =
     (if IsChunkFull regChunk then Inr (CR_END, regChunk)
      else
        let c1 = (if num_samples regChunk = 0 then regChunk\<lparr>start_ts := timestamp\<rparr>
                  else regChunk);
            pos = unat (num_samples c1)
        in case write_cell (buffer_ts c1) pos timestamp of
             Inl e \<Rightarrow> Inl e
           | Inr ts' \<Rightarrow>
               (case write_cell (buffer_values c1) pos value of
                  Inl e \<Rightarrow> Inl e
                | Inr vs' \<Rightarrow>
                    Inr (CR_OK, c1\<lparr>buffer_ts := ts', buffer_values := vs',
                                   num_samples := num_samples c1 + 1\<rparr>)))"

section \<open>Upsert\<close>

text \<open>
  The record types \<^verbatim>\<open>Sample\<close> and \<^verbatim>\<open>UpsertCtx\<close> come from a header that is not part
  of the sources at hand; their fields are the ones the code reads and writes. The context
  points to the chunk: the model carries the chunk in it and returns the context updated.
\<close>

record Sample =
  timestamp :: u_int64_t
  value_s :: double

record UpsertCtx =
  inChunk :: TurboGorilla_Chunk
  sample :: Sample

text \<open>
  \<^verbatim>\<open>memmove(&buf[dst], &buf[src], k * 8)\<close> inside one buffer: the \<open>k\<close> cells from \<open>src\<close>
  are copied to \<open>dst\<close> as if through a temporary; both ranges must lie in the allocation.
\<close>

definition memmove_cells :: "'a list \<Rightarrow> nat \<Rightarrow> nat \<Rightarrow> nat \<Rightarrow> fault + 'a list" where
  "memmove_cells buf dst src k =
     (if src + k \<le> length buf \<and> dst + k \<le> length buf
      then Inr (take dst buf @ take k (drop src buf) @ drop (dst + k) buf)
      else Inl OutOfBounds)"

text \<open>
  \<^verbatim>\<open>upsertChunk\<close>. The index \<open>idx\<close> is a \<^verbatim>\<open>size_t\<close> that the caller computed as a count
  of samples, so it is below \<open>2^32\<close> and is carried as a natural number.
\<close>

definition upsertChunk ::
  "fresh_mem \<Rightarrow> TurboGorilla_Chunk \<Rightarrow> nat \<Rightarrow> u_int64_t \<Rightarrow> double \<Rightarrow> fault + TurboGorilla_Chunk" where
  "upsertChunk mem chunk idx ts v =
     (let c1 = (if IsChunkFull chunk
                then let sz = size_b chunk + SAMPLE_SIZE;
                         new_ts_size = sz div 2 + 8;
                         new_values_size = sz div 2 + 8
                     in chunk\<lparr>size_b := sz,
                              buffer_ts := realloc_cells (fresh_ts mem) (buffer_ts chunk) new_ts_size,
                              buffer_values :=
                                realloc_cells (fresh_values mem) (buffer_values chunk) new_values_size\<rparr>
                else chunk);
          n = unat (num_samples c1)
      in case (if idx < n then memmove_cells (buffer_ts c1) (idx + 1) idx (n - idx)
               else Inr (buffer_ts c1)) of
           Inl e \<Rightarrow> Inl e
         | Inr ts1 \<Rightarrow>
         (case (if idx < n then memmove_cells (buffer_values c1) (idx + 1) idx (n - idx)
                else Inr (buffer_values c1)) of
            Inl e \<Rightarrow> Inl e
          | Inr vs1 \<Rightarrow>
          (case write_cell ts1 idx ts of
             Inl e \<Rightarrow> Inl e
           | Inr ts2 \<Rightarrow>
           (case write_cell vs1 idx v of
              Inl e \<Rightarrow> Inl e
            | Inr vs2 \<Rightarrow>
                Inr (c1\<lparr>buffer_ts := ts2, buffer_values := vs2,
                        num_samples := num_samples c1 + 1\<rparr>)))))"

text \<open>
  The scan \<^verbatim>\<open>for (int i = 0; i < numSamples; i++) sample_pos += (ts_array[i] < ts);\<close>
  The counter \<open>i\<close> is a C \<^verbatim>\<open>int\<close> that starts at 0 and only grows: it is carried as a
  natural number, and incrementing it at \<^verbatim>\<open>INT_MAX\<close> is the fault \<open>SignedOverflow\<close>.
  \<open>sample_pos\<close> is a \<^verbatim>\<open>size_t\<close> bounded by \<open>i\<close>, so it cannot wrap.
\<close>

function upsert_scan :: "u_int64_t list \<Rightarrow> u_int64_t \<Rightarrow> nat \<Rightarrow> nat \<Rightarrow> nat \<Rightarrow> fault + nat" where
  "upsert_scan ts_array ts numSamples i sample_pos =
     (if i < numSamples
      then (case read_cell ts_array i of
              Inl e \<Rightarrow> Inl e
            | Inr t \<Rightarrow>
                if i = 2147483647 then Inl SignedOverflow
                else upsert_scan ts_array ts numSamples (i + 1)
                       (sample_pos + (if t < ts then 1 else 0)))
      else Inr sample_pos)"
  by pat_completeness auto
termination
  by (relation "measure (\<lambda>(ts_array, ts, numSamples, i, sample_pos). numSamples - i)") auto

text \<open>
  \<^verbatim>\<open>handleDuplicateSample\<close> is defined elsewhere in the repository and is a parameter
  here: from the policy, the stored value and the incoming value it gives a result code
  and the value it left in the incoming sample. The result of the upsert is the result
  code, the context (with the chunk and the sample as the call leaves them) and the
  number written to \<^verbatim>\<open>*size\<close>.
\<close>

definition TurboGorilla_UpsertSample ::
  "('p \<Rightarrow> double \<Rightarrow> double \<Rightarrow> ChunkResult \<times> double) \<Rightarrow> fresh_mem \<Rightarrow> UpsertCtx \<Rightarrow> 'p
     \<Rightarrow> fault + (ChunkResult \<times> UpsertCtx \<times> int)" where
  "TurboGorilla_UpsertSample handleDuplicateSample mem uCtx duplicatePolicy =
     (let regChunk = inChunk uCtx;
          ts = timestamp (sample uCtx);
          ts_array = buffer_ts regChunk;
          numSamples = unat (num_samples regChunk)
      in case upsert_scan ts_array ts numSamples 0 0 of
           Inl e \<Rightarrow> Inl e
         | Inr sample_pos \<Rightarrow>
         (case (if sample_pos < numSamples
                then (case read_cell ts_array sample_pos of
                        Inl e \<Rightarrow> Inl e
                      | Inr t \<Rightarrow> Inr (t = ts))
                else Inr False) of
            Inl e \<Rightarrow> Inl e
          | Inr found \<Rightarrow>
              if found
              then (case read_cell (buffer_values regChunk) sample_pos of
                      Inl e \<Rightarrow> Inl e
                    | Inr old \<Rightarrow>
                        (case handleDuplicateSample duplicatePolicy old (value_s (sample uCtx)) of
                           (cr, v') \<Rightarrow>
                             let uCtx1 = uCtx\<lparr>sample := (sample uCtx)\<lparr>value_s := v'\<rparr>\<rparr>
                             in if cr \<noteq> CR_OK then Inr (CR_ERR, uCtx1, 0)
                                else (case write_cell (buffer_values regChunk) sample_pos v' of
                                        Inl e \<Rightarrow> Inl e
                                      | Inr vs \<Rightarrow>
                                          Inr (CR_OK,
                                               uCtx1\<lparr>inChunk := regChunk\<lparr>buffer_values := vs\<rparr>\<rparr>,
                                               0))))
              else
                let c1 = (if sample_pos = 0 then regChunk\<lparr>start_ts := ts\<rparr> else regChunk)
                in (case upsertChunk mem c1 sample_pos ts (value_s (sample uCtx)) of
                      Inl e \<Rightarrow> Inl e
                    | Inr c2 \<Rightarrow> Inr (CR_OK, uCtx\<lparr>inChunk := c2\<rparr>, 1))))"

text \<open>
  Modelled from the spec: the duplicate policies and their resolver are defined elsewhere
  in the repository. For concrete runs, a resolver with the two policies that the spec's
  testable properties name: BLOCK reports a conflict, LAST keeps the incoming value.
\<close>

datatype DuplicatePolicy = DP_BLOCK | DP_LAST

fun example_resolver :: "DuplicatePolicy \<Rightarrow> double \<Rightarrow> double \<Rightarrow> ChunkResult \<times> double" where
  "example_resolver DP_BLOCK old new = (CR_ERR, new)"
| "example_resolver DP_LAST old new = (CR_OK, new)"

section \<open>Range delete\<close>

text \<open>
  The copy loop of \<^verbatim>\<open>TurboGorilla_DelRange\<close>. The counters \<open>i\<close> and \<open>new_count\<close> are
  \<^verbatim>\<open>size_t\<close> values bounded by \<open>num_samples < 2^32\<close>, so they cannot wrap and are
  carried as natural numbers. The new buffers are those \<^verbatim>\<open>malloc\<close> returned.
\<close>

function DelRange_loop ::
  "u_int64_t list \<Rightarrow> double list \<Rightarrow> nat \<Rightarrow> timestamp_t \<Rightarrow> timestamp_t \<Rightarrow> nat \<Rightarrow> nat
     \<Rightarrow> u_int64_t list \<Rightarrow> double list \<Rightarrow> fault + (u_int64_t list \<times> double list \<times> nat)" where
  "DelRange_loop tss vals n startTs endTs i new_count new_buffer_ts new_buffer_values =
     (if i < n
      then (case read_cell tss i of
              Inl e \<Rightarrow> Inl e
            | Inr t \<Rightarrow>
                if t \<ge> startTs \<and> t \<le> endTs
                then DelRange_loop tss vals n startTs endTs (i + 1) new_count
                       new_buffer_ts new_buffer_values
                else (case write_cell new_buffer_ts new_count t of
                        Inl e \<Rightarrow> Inl e
                      | Inr nts \<Rightarrow>
                      (case read_cell vals i of
                         Inl e \<Rightarrow> Inl e
                       | Inr v \<Rightarrow>
                       (case write_cell new_buffer_values new_count v of
                          Inl e \<Rightarrow> Inl e
                        | Inr nvs \<Rightarrow>
                            DelRange_loop tss vals n startTs endTs (i + 1) (new_count + 1)
                              nts nvs))))
      else Inr (new_buffer_ts, new_buffer_values, new_count))"
  by pat_completeness auto
termination
  by (relation "measure (\<lambda>(tss, vals, n, startTs, endTs, i, rest). n - i)") auto

definition TurboGorilla_DelRange ::
  "fresh_mem \<Rightarrow> TurboGorilla_Chunk \<Rightarrow> timestamp_t \<Rightarrow> timestamp_t
     \<Rightarrow> fault + (TurboGorilla_Chunk \<times> size_t)" where
  "TurboGorilla_DelRange mem regChunk startTs endTs =
     (let array_size = size_b regChunk div 2;
          new_buffer_ts = malloc_cells (fresh_ts mem) array_size;
          new_buffer_values = malloc_cells (fresh_values mem) array_size
      in case DelRange_loop (buffer_ts regChunk) (buffer_values regChunk)
                (unat (num_samples regChunk)) startTs endTs 0 0
                new_buffer_ts new_buffer_values of
           Inl e \<Rightarrow> Inl e
         | Inr (nts, nvs, new_count) \<Rightarrow>
             let deleted_count = (ucast (num_samples regChunk) :: size_t) - of_nat new_count
             in (case read_cell nts 0 of
                   Inl e \<Rightarrow> Inl e
                 | Inr first \<Rightarrow>
                     Inr (regChunk\<lparr>buffer_ts := nts, buffer_values := nvs,
                                   num_samples := of_nat new_count, start_ts := first\<rparr>,
                          deleted_count)))"

section \<open>Split\<close>

text \<open>
  The copy loop of \<^verbatim>\<open>TurboGorilla_SplitChunk\<close>; the result code of the append is
  dropped, as in the source.
\<close>

function SplitChunk_loop ::
  "u_int64_t list \<Rightarrow> double list \<Rightarrow> nat \<Rightarrow> nat \<Rightarrow> nat \<Rightarrow> TurboGorilla_Chunk
     \<Rightarrow> fault + TurboGorilla_Chunk" where
  "SplitChunk_loop tss vals currentChunkNumSamples newChunkNumSamples i newChunk =
     (if i < newChunkNumSamples
      then (case read_cell tss (currentChunkNumSamples + i) of
              Inl e \<Rightarrow> Inl e
            | Inr ts \<Rightarrow>
            (case read_cell vals (currentChunkNumSamples + i) of
               Inl e \<Rightarrow> Inl e
             | Inr v \<Rightarrow>
             (case TurboGorilla_AddSampleOptimized newChunk ts v of
                Inl e \<Rightarrow> Inl e
              | Inr (cr, newChunk') \<Rightarrow>
                  SplitChunk_loop tss vals currentChunkNumSamples newChunkNumSamples (i + 1)
                    newChunk')))
      else Inr newChunk)"
  by pat_completeness auto
termination
  by (relation "measure (\<lambda>(tss, vals, cur, new, i, newChunk). new - i)") auto

text \<open>
  The split returns the truncated original and the new chunk. Memory comes from two
  places: the new chunk's allocations and the two \<^verbatim>\<open>realloc\<close> calls on the original.
\<close>

definition TurboGorilla_SplitChunk ::
  "fresh_mem \<Rightarrow> fresh_mem \<Rightarrow> TurboGorilla_Chunk
     \<Rightarrow> fault + (TurboGorilla_Chunk \<times> TurboGorilla_Chunk)" where
  "TurboGorilla_SplitChunk mem_new mem_re curChunk =
     (let newChunkNumSamples = (ucast (num_samples curChunk div 2) :: size_t);
          currentChunkNumSamples = (ucast (num_samples curChunk) :: size_t) - newChunkNumSamples;
          newChunk = TurboGorilla_NewChunk mem_new (newChunkNumSamples * SAMPLE_SIZE)
      in case SplitChunk_loop (buffer_ts curChunk) (buffer_values curChunk)
                (unat currentChunkNumSamples) (unat newChunkNumSamples) 0 newChunk of
           Inl e \<Rightarrow> Inl e
         | Inr newChunk' \<Rightarrow>
             let old_ts_size = currentChunkNumSamples * 8;
                 old_values_size = currentChunkNumSamples * 8
             in Inr (curChunk\<lparr>num_samples := ucast currentChunkNumSamples,
                              size_b := currentChunkNumSamples * SAMPLE_SIZE,
                              buffer_ts :=
                                realloc_cells (fresh_ts mem_re) (buffer_ts curChunk) old_ts_size,
                              buffer_values :=
                                realloc_cells (fresh_values mem_re) (buffer_values curChunk)
                                  old_values_size\<rparr>,
                     newChunk'))"

section \<open>The logical content of a chunk\<close>

text \<open>
  The samples a chunk holds are the first \<open>num_samples\<close> cells of its two parallel
  buffers; what lies behind them is slack.
\<close>

definition count :: "TurboGorilla_Chunk \<Rightarrow> nat" where
  "count c = unat (num_samples c)"

definition timestamps :: "TurboGorilla_Chunk \<Rightarrow> u_int64_t list" where
  "timestamps c = take (count c) (buffer_ts c)"

definition values_of :: "TurboGorilla_Chunk \<Rightarrow> double list" where
  "values_of c = take (count c) (buffer_values c)"

definition samples :: "TurboGorilla_Chunk \<Rightarrow> (u_int64_t \<times> double) list" where
  "samples c = zip (timestamps c) (values_of c)"

text \<open>The buffers are allocated for at least the samples the chunk claims to hold.\<close>

definition buffers_hold :: "TurboGorilla_Chunk \<Rightarrow> bool" where
  "buffers_hold c \<longleftrightarrow> count c \<le> length (buffer_ts c) \<and> count c \<le> length (buffer_values c)"


text \<open>The capacity in samples that the byte capacity \<open>size\<close> stands for.\<close>

definition capacity :: "TurboGorilla_Chunk \<Rightarrow> nat" where
  "capacity c = unat (size_b c div SAMPLE_SIZE)"

text \<open>Both buffers are allocated for the whole capacity.\<close>

definition capacity_allocated :: "TurboGorilla_Chunk \<Rightarrow> bool" where
  "capacity_allocated c \<longleftrightarrow>
     capacity c \<le> length (buffer_ts c) \<and> capacity c \<le> length (buffer_values c)"

text \<open>The invariants of the spec's data model.\<close>

definition ts_ascending :: "TurboGorilla_Chunk \<Rightarrow> bool" where
  "ts_ascending c \<longleftrightarrow> sorted_wrt (<) (timestamps c)"

definition within_capacity :: "TurboGorilla_Chunk \<Rightarrow> bool" where
  "within_capacity c \<longleftrightarrow> count c * unat SAMPLE_SIZE \<le> unat (size_b c)"

definition start_ts_cached :: "TurboGorilla_Chunk \<Rightarrow> bool" where
  "start_ts_cached c \<longleftrightarrow> (0 < count c \<longrightarrow> start_ts c = buffer_ts c ! 0)"

text \<open>
  The three invariants together, and the state of a chunk that satisfies the data model:
  the invariants hold and the buffers are allocated for the samples and for the capacity.
\<close>

definition chunk_inv :: "TurboGorilla_Chunk \<Rightarrow> bool" where
  "chunk_inv c \<longleftrightarrow> ts_ascending c \<and> within_capacity c \<and> start_ts_cached c"

definition chunk_ok :: "TurboGorilla_Chunk \<Rightarrow> bool" where
  "chunk_ok c \<longleftrightarrow> chunk_inv c \<and> buffers_hold c \<and> capacity_allocated c"

text \<open>The samples that a delete of the inclusive range leaves, in their order.\<close>

definition in_range :: "timestamp_t \<Rightarrow> timestamp_t \<Rightarrow> u_int64_t \<times> double \<Rightarrow> bool" where
  "in_range startTs endTs p \<longleftrightarrow> startTs \<le> fst p \<and> fst p \<le> endTs"

definition survivors ::
  "timestamp_t \<Rightarrow> timestamp_t \<Rightarrow> (u_int64_t \<times> double) list \<Rightarrow> (u_int64_t \<times> double) list" where
  "survivors startTs endTs ps = filter (\<lambda>p. \<not> in_range startTs endTs p) ps"

text \<open>
  Storage with no slack: the byte capacity and both buffers are exactly what
  \<open>num_samples\<close> samples take.
\<close>

definition exact_fit :: "TurboGorilla_Chunk \<Rightarrow> bool" where
  "exact_fit c \<longleftrightarrow>
     unat (size_b c) = count c * unat SAMPLE_SIZE \<and>
     length (buffer_ts c) = count c \<and> length (buffer_values c) = count c"

text \<open>Fresh memory every cell of which holds the same pattern, for concrete runs.\<close>

definition filled :: "64 word \<Rightarrow> fresh_mem" where
  "filled w = \<lparr>fresh_start_ts = w, fresh_ts = (\<lambda>i. w), fresh_values = (\<lambda>i. w)\<rparr>"

section \<open>Iteration\<close>

text \<open>
  Modelled from the spec: the iterator record is declared in a header that is not part of
  the sources at hand. Its fields are the ones the code uses; the spec gives the index as
  signed (the reverse scan ends below 0), and it is taken to be a C \<^verbatim>\<open>int\<close>, carried
  as an integer: comparing it with the unsigned counter converts it to unsigned, and
  incrementing it at \<^verbatim>\<open>INT_MAX\<close> is the fault \<open>SignedOverflow\<close>. The option bit
  \<^verbatim>\<open>CHUNK_ITER_OP_REVERSE\<close> comes from the same header and is a parameter.
\<close>

record TurboGorilla_ChunkIterator =
  chunk :: TurboGorilla_Chunk
  currentIndex :: int
  options :: "32 word"

definition TurboGorilla_NewChunkIterator ::
  "32 word \<Rightarrow> TurboGorilla_Chunk \<Rightarrow> 32 word \<Rightarrow> TurboGorilla_ChunkIterator" where
  "TurboGorilla_NewChunkIterator CHUNK_ITER_OP_REVERSE c opts =
     \<lparr>chunk = c,
      currentIndex = (if opts AND CHUNK_ITER_OP_REVERSE \<noteq> 0 then sint (num_samples c - 1) else 0),
      options = opts\<rparr>"

text \<open>The conversion of an \<^verbatim>\<open>int\<close> to \<^verbatim>\<open>unsigned int\<close>.\<close>

definition as_unsigned :: "int \<Rightarrow> int" where
  "as_unsigned i = (if i < 0 then i + 4294967296 else i)"

definition TurboGorilla_ChunkIteratorGetNext ::
  "TurboGorilla_ChunkIterator \<Rightarrow> Sample
     \<Rightarrow> fault + (ChunkResult \<times> TurboGorilla_ChunkIterator \<times> Sample)" where
  "TurboGorilla_ChunkIteratorGetNext iter smp =
     (if as_unsigned (currentIndex iter) < uint (num_samples (chunk iter))
      then if currentIndex iter < 0 then Inl OutOfBounds
           else (case read_cell (buffer_values (chunk iter)) (nat (currentIndex iter)) of
                   Inl e \<Rightarrow> Inl e
                 | Inr v \<Rightarrow>
                 (case read_cell (buffer_ts (chunk iter)) (nat (currentIndex iter)) of
                    Inl e \<Rightarrow> Inl e
                  | Inr t \<Rightarrow>
                      if currentIndex iter = 2147483647 then Inl SignedOverflow
                      else Inr (CR_OK, iter\<lparr>currentIndex := currentIndex iter + 1\<rparr>,
                                smp\<lparr>timestamp := t, value_s := v\<rparr>)))
      else Inr (CR_END, iter, smp))"

text \<open>
  A forward scan: \<^verbatim>\<open>GetNext\<close> is called until it answers \<^verbatim>\<open>CR_END\<close>, and the samples it
  yielded are collected.
\<close>

function iterate_forward ::
  "TurboGorilla_ChunkIterator \<Rightarrow> Sample \<Rightarrow> fault + (u_int64_t \<times> double) list" where
  "iterate_forward iter smp =
     (case TurboGorilla_ChunkIteratorGetNext iter smp of
        Inl e \<Rightarrow> Inl e
      | Inr (cr, iter', smp') \<Rightarrow>
          if cr = CR_OK
          then (case iterate_forward iter' smp' of
                  Inl e \<Rightarrow> Inl e
                | Inr rest \<Rightarrow> Inr ((timestamp smp', value_s smp') # rest))
          else Inr [])"
  by pat_completeness auto
termination
proof (relation "measure (\<lambda>(iter, smp). count (chunk iter) - nat (currentIndex iter))")
  show "wf (measure (\<lambda>(iter, smp). count (chunk iter) - nat (currentIndex iter)))"
    by simp
next
  fix iter smp x2 cr y iter' smp'
  assume "TurboGorilla_ChunkIteratorGetNext iter smp = Inr x2" "(cr, y) = x2" "(iter', smp') = y"
    "cr = CR_OK"
  then have "currentIndex iter' = currentIndex iter + 1 \<and> chunk iter' = chunk iter \<and>
             0 \<le> currentIndex iter \<and> currentIndex iter < uint (num_samples (chunk iter))"
    by (auto simp add: TurboGorilla_ChunkIteratorGetNext_def read_cell_def as_unsigned_def
        split: if_splits sum.splits)
  moreover have "uint (num_samples (chunk iter)) = int (count (chunk iter))"
    unfolding count_def by (rule uint_nat)
  ultimately show "((iter', smp'), iter, smp)
       \<in> measure (\<lambda>(iter, smp). count (chunk iter) - nat (currentIndex iter))"
    by (simp add: nat_add_distrib) linarith
qed

section \<open>Arithmetic of the counters and sizes\<close>

declare upsert_scan.simps [simp del]
declare DelRange_loop.simps [simp del]
declare SplitChunk_loop.simps [simp del]
declare iterate_forward.simps [simp del]

lemma unat_lt_2p32: "unat (w :: 32 word) < 4294967296"
  using unsigned_less [of w, where 'a = nat] by simp

lemma unat_ucast_32_64: "unat (ucast (w :: 32 word) :: 64 word) = unat w"
proof -
  have "unat w < 2 ^ 64"
    using unat_lt_2p32 [of w] by simp
  then show ?thesis
    by (simp add: unsigned_ucast_eq take_bit_nat_eq_self)
qed

lemma count_lt_2p32: "count c < 4294967296"
  by (simp add: count_def unat_lt_2p32)

lemma capacity_eq: "capacity c = unat (size_b c) div 16"
  by (simp add: capacity_def SAMPLE_SIZE_def unat_div)

lemma IsChunkFull_iff: "IsChunkFull c \<longleftrightarrow> count c = capacity c"
  by (simp add: IsChunkFull_def count_def capacity_def word_unat_eq_iff unat_ucast_32_64)

lemma within_capacity_iff: "within_capacity c \<longleftrightarrow> count c \<le> capacity c"
  by (auto simp add: within_capacity_def capacity_eq SAMPLE_SIZE_def)

lemma length_malloc_cells: "length (malloc_cells junk bytes) = unat bytes div 8"
  by (simp add: malloc_cells_def)

lemma unat_half_cells: "unat (sz div 2 :: 64 word) div 8 = unat sz div 16"
  by (simp add: unat_div div_mult2_eq)

lemma length_samples: "buffers_hold c \<Longrightarrow> length (samples c) = count c"
  by (simp add: samples_def timestamps_def values_of_def buffers_hold_def)

lemma map_fst_samples: "buffers_hold c \<Longrightarrow> map fst (samples c) = timestamps c"
  by (simp add: samples_def timestamps_def values_of_def buffers_hold_def)

lemma map_snd_samples: "buffers_hold c \<Longrightarrow> map snd (samples c) = values_of c"
  by (simp add: samples_def timestamps_def values_of_def buffers_hold_def)

lemma unat_of_nat32: "k < 4294967296 \<Longrightarrow> unat (of_nat k :: 32 word) = k"
  by (simp add: unat_of_nat)

lemma unat_del_count:
  assumes "k \<le> unat (n :: 32 word)"
  shows "unat ((ucast n :: 64 word) - of_nat k) = unat n - k"
proof -
  have k64: "unat (of_nat k :: 64 word) = k"
    using assms unat_lt_2p32 [of n] by (simp add: unat_of_nat)
  have "(of_nat k :: 64 word) \<le> ucast n"
    using assms by (simp add: word_le_nat_alt k64 unat_ucast_32_64)
  then show ?thesis
    by (simp add: unat_sub k64 unat_ucast_32_64)
qed

lemma unat_succ32': "unat (n :: 32 word) < 4294967295 \<Longrightarrow> unat (n + 1) = Suc (unat n)"
proof -
  assume a: "unat n < 4294967295"
  have "unat n + unat (1 :: 32 word) < 2 ^ LENGTH(32)"
    using a by simp
  then have "unat (n + 1) = unat n + unat (1 :: 32 word)"
    by (simp only: unat_add_lem)
  then show ?thesis by simp
qed

lemma AddSampleOptimized_run:
  assumes "\<not> IsChunkFull c" "count c < length (buffer_ts c)" "count c < length (buffer_values c)"
  shows "TurboGorilla_AddSampleOptimized c ts v =
           Inr (CR_OK, c\<lparr>start_ts := (if num_samples c = 0 then ts else start_ts c),
                          buffer_ts := (buffer_ts c)[count c := ts],
                          buffer_values := (buffer_values c)[count c := v],
                          num_samples := num_samples c + 1\<rparr>)"
  using assms
  by (auto simp add: TurboGorilla_AddSampleOptimized_def write_cell_def count_def Let_def)

lemma unat_half32: "unat (ucast (n div 2 :: 32 word) :: 64 word) = unat n div 2"
  by (simp add: unat_ucast_32_64 unat_div)

lemma unat_keep32:
  "unat ((ucast (n :: 32 word) :: 64 word) - ucast (n div 2)) = unat n - unat n div 2"
proof -
  have "(ucast (n div 2) :: 64 word) \<le> ucast n"
    by (simp add: word_le_nat_alt unat_ucast_32_64 unat_div)
  then show ?thesis
    by (simp add: unat_sub unat_ucast_32_64 unat_div)
qed

lemma unat_times_small:
  assumes "unat (k :: 64 word) < 4294967296" "m \<le> 16"
  shows "unat (k * of_nat m) = unat k * m"
proof -
  have m: "unat (of_nat m :: 64 word) = m"
    using assms(2) by (simp add: unat_of_nat)
  have "unat k * m \<le> 4294967296 * 16"
    using assms by (intro mult_le_mono) simp_all
  then have "unat k * unat (of_nat m :: 64 word) < 2 ^ LENGTH(64)"
    by (simp add: m)
  then have "unat (k * of_nat m) = unat k * unat (of_nat m :: 64 word)"
    by (simp only: unat_mult_lem)
  then show ?thesis by (simp add: m)
qed

lemma unat_times_16: "unat (k :: 64 word) < 4294967296 \<Longrightarrow> unat (k * 16) = unat k * 16"
  using unat_times_small [of k 16] by simp

lemma unat_times_8: "unat (k :: 64 word) < 4294967296 \<Longrightarrow> unat (k * 8) = unat k * 8"
  using unat_times_small [of k 8] by simp

lemma unat_ucast_64_32:
  "unat (k :: 64 word) < 4294967296 \<Longrightarrow> unat (ucast k :: 32 word) = unat k"
  by (simp add: unsigned_ucast_eq take_bit_nat_eq_self)

lemma realloc_cells_shrink:
  "unat bytes div 8 \<le> length old \<Longrightarrow> realloc_cells junk old bytes = take (unat bytes div 8) old"
  by (simp add: realloc_cells_def)

lemma NewChunk_fields:
  "start_ts (TurboGorilla_NewChunk mem sz) = fresh_start_ts mem"
  "num_samples (TurboGorilla_NewChunk mem sz) = 0"
  "size_b (TurboGorilla_NewChunk mem sz) = sz"
  "buffer_in_use (TurboGorilla_NewChunk mem sz) = True"
  "buffer_ts (TurboGorilla_NewChunk mem sz) = malloc_cells (fresh_ts mem) (sz div 2)"
  "buffer_values (TurboGorilla_NewChunk mem sz) = malloc_cells (fresh_values mem) (sz div 2)"
  by (simp_all add: TurboGorilla_NewChunk_def Let_def)

lemma grown_cells:
  assumes "unat (sz :: 64 word) div 16 < 4294967296"
  shows "unat (sz + 16) = unat sz + 16"
    and "unat ((sz + 16) div 2 + 8) div 8 = unat sz div 16 + 2"
proof -
  have b: "unat sz < 68719476752"
    using assms by arith
  then have "unat sz + unat (16 :: 64 word) < 2 ^ LENGTH(64)"
    by simp
  then have "unat (sz + 16) = unat sz + unat (16 :: 64 word)"
    by (simp only: unat_add_lem)
  then show a: "unat (sz + 16) = unat sz + 16" by simp
  have h: "unat ((sz + 16) div 2) = (unat sz + 16) div 2"
    by (simp add: unat_div a)
  have "unat ((sz + 16) div 2) + unat (8 :: 64 word) < 2 ^ LENGTH(64)"
    using b by (simp add: h)
  then have "unat ((sz + 16) div 2 + 8) = unat ((sz + 16) div 2) + unat (8 :: 64 word)"
    by (simp only: unat_add_lem)
  then have "unat ((sz + 16) div 2 + 8) = (unat sz + 16) div 2 + 8"
    by (simp add: h)
  then show "unat ((sz + 16) div 2 + 8) div 8 = unat sz div 16 + 2"
    by simp
qed

lemma take_realloc_cells:
  "n \<le> length old \<Longrightarrow> n \<le> unat bytes div 8 \<Longrightarrow>
     take n (realloc_cells junk old bytes) = take n old"
  by (simp add: realloc_cells_def)

lemma length_realloc_cells: "length (realloc_cells junk old bytes) = unat bytes div 8"
  by (simp add: realloc_cells_def min_def)

section \<open>The copy loop of the range delete\<close>

lemma DelRange_loop_correct:
  assumes "length ps = n"
    and "take n tss = map fst ps" "take n vals = map snd ps"
    and "i \<le> n"
    and "k + length (survivors s e (drop i ps)) \<le> length nts"
    and "k + length (survivors s e (drop i ps)) \<le> length nvs"
  shows "DelRange_loop tss vals n s e i k nts nvs =
           Inr (take k nts @ map fst (survivors s e (drop i ps))
                  @ drop (k + length (survivors s e (drop i ps))) nts,
                take k nvs @ map snd (survivors s e (drop i ps))
                  @ drop (k + length (survivors s e (drop i ps))) nvs,
                k + length (survivors s e (drop i ps)))"
  using assms
proof (induction "n - i" arbitrary: i k nts nvs)
  case 0
  then show ?case by (subst DelRange_loop.simps) (simp add: survivors_def)
next
  case (Suc d)
  then have lt: "i < n" by simp
  have ti: "tss ! i = fst (ps ! i)"
    using lt Suc.prems by (metis nth_map nth_take)
  have vi: "vals ! i = snd (ps ! i)"
    using lt Suc.prems by (metis nth_map nth_take)
  have li: "i < length tss" "i < length vals"
    using lt Suc.prems by (metis length_map length_take min_less_iff_conj)+
  have dr: "drop i ps = ps ! i # drop (Suc i) ps"
    using lt Suc.prems by (simp add: Cons_nth_drop_Suc)
  show ?case
  proof (cases "in_range s e (ps ! i)")
    case True
    have step: "DelRange_loop tss vals n s e i k nts nvs =
          DelRange_loop tss vals n s e (Suc i) k nts nvs"
      using lt li ti True by (subst DelRange_loop.simps) (simp add: read_cell_def in_range_def)
    have sv: "survivors s e (drop i ps) = survivors s e (drop (Suc i) ps)"
      using True by (simp add: dr survivors_def)
    have ih: "DelRange_loop tss vals n s e (Suc i) k nts nvs =
        Inr (take k nts @ map fst (survivors s e (drop (Suc i) ps))
                  @ drop (k + length (survivors s e (drop (Suc i) ps))) nts,
             take k nvs @ map snd (survivors s e (drop (Suc i) ps))
                  @ drop (k + length (survivors s e (drop (Suc i) ps))) nvs,
             k + length (survivors s e (drop (Suc i) ps)))"
      using Suc.prems Suc.hyps(2) lt sv by (intro Suc.hyps(1)) simp_all
    show ?thesis
      unfolding step ih sv by simp
  next
    case False
    have sv: "survivors s e (drop i ps) = ps ! i # survivors s e (drop (Suc i) ps)"
      using False by (simp add: dr survivors_def)
    have kl: "k < length nts" "k < length nvs"
      using Suc.prems sv by simp_all
    have step: "DelRange_loop tss vals n s e i k nts nvs =
          DelRange_loop tss vals n s e (Suc i) (Suc k) (nts[k := tss ! i]) (nvs[k := vals ! i])"
      using lt li ti kl False
      by (subst DelRange_loop.simps) (auto simp add: read_cell_def write_cell_def in_range_def)
    have ih: "DelRange_loop tss vals n s e (Suc i) (Suc k) (nts[k := tss ! i]) (nvs[k := vals ! i]) =
       Inr (take (Suc k) (nts[k := tss ! i]) @ map fst (survivors s e (drop (Suc i) ps))
                  @ drop (Suc k + length (survivors s e (drop (Suc i) ps))) (nts[k := tss ! i]),
            take (Suc k) (nvs[k := vals ! i]) @ map snd (survivors s e (drop (Suc i) ps))
                  @ drop (Suc k + length (survivors s e (drop (Suc i) ps))) (nvs[k := vals ! i]),
            Suc k + length (survivors s e (drop (Suc i) ps)))"
      using Suc.prems Suc.hyps(2) lt sv by (intro Suc.hyps(1)) simp_all
    have t1: "take (Suc k) (nts[k := tss ! i]) = take k nts @ [fst (ps ! i)]"
      using kl ti by (simp add: take_Suc_conv_app_nth)
    have t2: "take (Suc k) (nvs[k := vals ! i]) = take k nvs @ [snd (ps ! i)]"
      using kl vi by (simp add: take_Suc_conv_app_nth)
    show ?thesis
      unfolding step ih sv t1 t2 by simp
  qed
qed

lemma length_survivors_le: "length (survivors s e ps) \<le> length ps"
  by (simp add: survivors_def)

text \<open>What the range delete computes, on a chunk whose buffers hold its samples, whose
  samples fit its capacity, and whose capacity is at least one sample.\<close>

lemma DelRange_result:
  fixes c :: TurboGorilla_Chunk and s e :: timestamp_t and mem :: fresh_mem
  assumes bh: "buffers_hold c" and wc: "count c \<le> capacity c" and c1: "0 < capacity c"
  defines "sv \<equiv> survivors s e (samples c)"
  defines "fill_ts \<equiv> malloc_cells (fresh_ts mem) (size_b c div 2)"
  defines "fill_vs \<equiv> malloc_cells (fresh_values mem) (size_b c div 2)"
  shows "TurboGorilla_DelRange mem c s e =
           Inr (c\<lparr>buffer_ts := map fst sv @ drop (length sv) fill_ts,
                   buffer_values := map snd sv @ drop (length sv) fill_vs,
                   num_samples := of_nat (length sv),
                   start_ts := (map fst sv @ drop (length sv) fill_ts) ! 0\<rparr>,
                ucast (num_samples c) - of_nat (length sv))"
proof -
  have len: "length fill_ts = capacity c" "length fill_vs = capacity c"
    by (simp_all add: fill_ts_def fill_vs_def length_malloc_cells unat_half_cells capacity_eq)
  have svl: "length sv \<le> count c"
    using length_survivors_le [of s e "samples c"] bh by (simp add: sv_def length_samples)
  have loop: "DelRange_loop (buffer_ts c) (buffer_values c) (unat (num_samples c)) s e 0 0
                fill_ts fill_vs =
              Inr (take 0 fill_ts @ map fst (survivors s e (drop 0 (samples c)))
                     @ drop (0 + length (survivors s e (drop 0 (samples c)))) fill_ts,
                   take 0 fill_vs @ map snd (survivors s e (drop 0 (samples c)))
                     @ drop (0 + length (survivors s e (drop 0 (samples c)))) fill_vs,
                   0 + length (survivors s e (drop 0 (samples c))))"
  proof (rule DelRange_loop_correct)
    show "length (samples c) = unat (num_samples c)"
      using bh by (simp add: length_samples) (simp add: count_def)
    show "take (unat (num_samples c)) (buffer_ts c) = map fst (samples c)"
      using bh by (simp add: map_fst_samples) (simp add: timestamps_def count_def)
    show "take (unat (num_samples c)) (buffer_values c) = map snd (samples c)"
      using bh by (simp add: map_snd_samples) (simp add: values_of_def count_def)
    show "0 + length (survivors s e (drop 0 (samples c))) \<le> length fill_ts"
      using svl wc len by (simp add: sv_def)
    show "0 + length (survivors s e (drop 0 (samples c))) \<le> length fill_vs"
      using svl wc len by (simp add: sv_def)
  qed simp
  have nonempty: "0 < length (map fst sv @ drop (length sv) fill_ts)"
    using len c1 svl wc by simp
  show ?thesis
    using loop nonempty
    by (simp add: TurboGorilla_DelRange_def Let_def read_cell_def
        flip: sv_def fill_ts_def fill_vs_def)
qed


lemma DelRange_facts:
  fixes c :: TurboGorilla_Chunk and s e :: timestamp_t and mem :: fresh_mem
  assumes bh: "buffers_hold c" and wc: "count c \<le> capacity c" and c1: "0 < capacity c"
  obtains c' d where
    "TurboGorilla_DelRange mem c s e = Inr (c', d)"
    "samples c' = survivors s e (samples c)"
    "count c' = length (survivors s e (samples c))"
    "start_ts c' = buffer_ts c' ! 0"
    "unat d = count c - count c'"
    "size_b c' = size_b c"
    "length (buffer_ts c') = capacity c" "length (buffer_values c') = capacity c"
    "buffer_in_use c' = buffer_in_use c"
proof -
  define sv where "sv = survivors s e (samples c)"
  define fill_ts where "fill_ts = malloc_cells (fresh_ts mem) (size_b c div 2)"
  define fill_vs where "fill_vs = malloc_cells (fresh_values mem) (size_b c div 2)"
  define c' where "c' = c\<lparr>buffer_ts := map fst sv @ drop (length sv) fill_ts,
                   buffer_values := map snd sv @ drop (length sv) fill_vs,
                   num_samples := of_nat (length sv),
                   start_ts := (map fst sv @ drop (length sv) fill_ts) ! 0\<rparr>"
  define d :: size_t where "d = ucast (num_samples c) - of_nat (length sv)"
  have run: "TurboGorilla_DelRange mem c s e = Inr (c', d)"
    unfolding c'_def d_def sv_def fill_ts_def fill_vs_def
    by (rule DelRange_result [OF bh wc c1])
  have len: "length fill_ts = capacity c" "length fill_vs = capacity c"
    by (simp_all add: fill_ts_def fill_vs_def length_malloc_cells unat_half_cells capacity_eq)
  have svl: "length sv \<le> count c"
    using length_survivors_le [of s e "samples c"] bh by (simp add: sv_def length_samples)
  have cnt: "count c' = length sv"
    using svl count_lt_2p32 [of c] by (simp add: count_def c'_def unat_of_nat32)
  have smp: "samples c' = sv"
    by (simp add: samples_def timestamps_def values_of_def cnt) (simp add: c'_def zip_map_fst_snd)
  have del: "unat d = count c - count c'"
    using svl unat_del_count [of "length sv" "num_samples c"]
    by (simp add: cnt d_def) (simp add: count_def)
  have l1: "length (buffer_ts c') = capacity c" "length (buffer_values c') = capacity c"
    using svl wc len by (simp_all add: c'_def)
  show thesis
  proof (rule that [of c' d])
    show "TurboGorilla_DelRange mem c s e = Inr (c', d)" by (rule run)
    show "samples c' = survivors s e (samples c)" by (simp add: smp sv_def)
    show "count c' = length (survivors s e (samples c))" by (simp add: cnt sv_def)
    show "start_ts c' = buffer_ts c' ! 0" by (simp add: c'_def)
    show "unat d = count c - count c'" by (rule del)
    show "size_b c' = size_b c" by (simp add: c'_def)
    show "buffer_in_use c' = buffer_in_use c" by (simp add: c'_def)
  qed (rule l1)+
qed

section \<open>The copy loop of the split\<close>

lemma SplitChunk_loop_correct:
  assumes "i \<le> newN" "cur + newN \<le> length tss" "cur + newN \<le> length vals"
    and "count nc = i" "capacity nc = newN"
    and "newN \<le> length (buffer_ts nc)" "newN \<le> length (buffer_values nc)"
    and "newN < 4294967296"
  shows "\<exists>nc'. SplitChunk_loop tss vals cur newN i nc = Inr nc' \<and>
           count nc' = newN \<and> size_b nc' = size_b nc \<and> buffer_in_use nc' = buffer_in_use nc \<and>
           buffer_ts nc' = take i (buffer_ts nc) @ take (newN - i) (drop (cur + i) tss)
                             @ drop newN (buffer_ts nc) \<and>
           buffer_values nc' = take i (buffer_values nc) @ take (newN - i) (drop (cur + i) vals)
                             @ drop newN (buffer_values nc) \<and>
           start_ts nc' = (if i = 0 \<and> 0 < newN then tss ! cur else start_ts nc)"
  using assms
proof (induction "newN - i" arbitrary: i nc)
  case 0
  then have "i = newN" by simp
  with "0.prems"(4) show ?case
    by (subst SplitChunk_loop.simps) auto
next
  case (Suc d)
  then have lt: "i < newN" by simp
  define nc1 where "nc1 = nc\<lparr>start_ts := (if num_samples nc = 0 then tss ! (cur + i) else start_ts nc),
                          buffer_ts := (buffer_ts nc)[count nc := tss ! (cur + i)],
                          buffer_values := (buffer_values nc)[count nc := vals ! (cur + i)],
                          num_samples := num_samples nc + 1\<rparr>"
  have nf: "\<not> IsChunkFull nc"
    using lt Suc.prems by (simp add: IsChunkFull_iff)
  have add: "TurboGorilla_AddSampleOptimized nc (tss ! (cur + i)) (vals ! (cur + i)) = Inr (CR_OK, nc1)"
    unfolding nc1_def using nf lt Suc.prems by (intro AddSampleOptimized_run) simp_all
  have step: "SplitChunk_loop tss vals cur newN i nc = SplitChunk_loop tss vals cur newN (Suc i) nc1"
    using lt Suc.prems add by (subst SplitChunk_loop.simps) (simp add: read_cell_def)
  have cnt1: "count nc1 = Suc i"
    using lt Suc.prems by (simp add: nc1_def count_def unat_succ32')
  have cap1: "capacity nc1 = newN"
    using Suc.prems by (simp add: nc1_def capacity_def)
  have ex: "\<exists>nc'. SplitChunk_loop tss vals cur newN (Suc i) nc1 = Inr nc' \<and>
           count nc' = newN \<and> size_b nc' = size_b nc1 \<and> buffer_in_use nc' = buffer_in_use nc1 \<and>
           buffer_ts nc' = take (Suc i) (buffer_ts nc1) @ take (newN - Suc i) (drop (cur + Suc i) tss)
                             @ drop newN (buffer_ts nc1) \<and>
           buffer_values nc' = take (Suc i) (buffer_values nc1)
                             @ take (newN - Suc i) (drop (cur + Suc i) vals)
                             @ drop newN (buffer_values nc1) \<and>
           start_ts nc' = (if Suc i = 0 \<and> 0 < newN then tss ! cur else start_ts nc1)"
  proof (rule Suc.hyps(1))
    show "d = newN - Suc i" using Suc.hyps(2) by simp
    show "Suc i \<le> newN" using lt by simp
    show "count nc1 = Suc i" by (rule cnt1)
    show "capacity nc1 = newN" by (rule cap1)
    show "newN \<le> length (buffer_ts nc1)" using Suc.prems by (simp add: nc1_def)
    show "newN \<le> length (buffer_values nc1)" using Suc.prems by (simp add: nc1_def)
  qed (use Suc.prems in simp_all)
  then obtain nc' where ih: "SplitChunk_loop tss vals cur newN (Suc i) nc1 = Inr nc'"
    "count nc' = newN" "size_b nc' = size_b nc1" "buffer_in_use nc' = buffer_in_use nc1"
    "buffer_ts nc' = take (Suc i) (buffer_ts nc1) @ take (newN - Suc i) (drop (cur + Suc i) tss)
                             @ drop newN (buffer_ts nc1)"
    "buffer_values nc' = take (Suc i) (buffer_values nc1)
                             @ take (newN - Suc i) (drop (cur + Suc i) vals)
                             @ drop newN (buffer_values nc1)"
    "start_ts nc' = (if Suc i = 0 \<and> 0 < newN then tss ! cur else start_ts nc1)"
    by blast
  have zero: "num_samples nc = 0 \<longleftrightarrow> i = 0"
    using Suc.prems(4) unat_eq_zero [of "num_samples nc"] by (auto simp add: count_def)
  have t: "take (Suc i) (buffer_ts nc1) = take i (buffer_ts nc) @ [tss ! (cur + i)]"
    using lt Suc.prems by (simp add: nc1_def take_Suc_conv_app_nth)
  have v: "take (Suc i) (buffer_values nc1) = take i (buffer_values nc) @ [vals ! (cur + i)]"
    using lt Suc.prems by (simp add: nc1_def take_Suc_conv_app_nth)
  have dt: "take (newN - i) (drop (cur + i) tss) = tss ! (cur + i) # take (newN - Suc i) (drop (cur + Suc i) tss)"
    using lt Suc.prems by (simp add: take_Suc_Cons flip: Cons_nth_drop_Suc Suc_diff_Suc)
  have dv: "take (newN - i) (drop (cur + i) vals) = vals ! (cur + i) # take (newN - Suc i) (drop (cur + Suc i) vals)"
    using lt Suc.prems by (simp add: take_Suc_Cons flip: Cons_nth_drop_Suc Suc_diff_Suc)
  have dd: "drop newN (buffer_ts nc1) = drop newN (buffer_ts nc)"
    "drop newN (buffer_values nc1) = drop newN (buffer_values nc)"
    using lt Suc.prems by (simp_all add: nc1_def)
  show ?case
    unfolding step
    using ih zero lt
    by (intro exI [of _ nc']) (simp add: t v dt dv dd, simp add: nc1_def)
qed

lemma SplitChunk_facts:
  fixes c :: TurboGorilla_Chunk
  assumes bh: "buffers_hold c"
  obtains l r where
    "TurboGorilla_SplitChunk mem_new mem_re c = Inr (l, r)"
    "count r = count c div 2" "count l = count c - count c div 2"
    "samples l = take (count l) (samples c)" "samples r = drop (count l) (samples c)"
    "unat (size_b l) = count l * 16" "unat (size_b r) = count r * 16"
    "length (buffer_ts l) = count l" "length (buffer_values l) = count l"
    "length (buffer_ts r) = count r" "length (buffer_values r) = count r"
    "start_ts l = start_ts c"
    "0 < count r \<longrightarrow> start_ts r = buffer_ts c ! count l"
proof -
  define newN :: size_t where "newN = ucast (num_samples c div 2)"
  define cur :: size_t where "cur = ucast (num_samples c) - newN"
  define nc where "nc = TurboGorilla_NewChunk mem_new (newN * SAMPLE_SIZE)"
  have n32: "count c < 4294967296" by (rule count_lt_2p32)
  have un: "unat newN = count c div 2"
    by (simp add: newN_def unat_half32 count_def)
  have uc: "unat cur = count c - count c div 2"
    by (simp add: cur_def newN_def unat_keep32 count_def)
  have sum: "unat cur + unat newN = count c"
    by (simp add: un uc)
  have szn: "unat (newN * 16) = unat newN * 16"
    using n32 un by (intro unat_times_16) simp
  have szc: "unat (cur * 16) = unat cur * 16" "unat (cur * 8) = unat cur * 8"
    using n32 uc by (simp_all add: unat_times_16 unat_times_8)
  have nc_cap: "capacity nc = unat newN"
    by (simp add: capacity_eq nc_def NewChunk_fields SAMPLE_SIZE_def szn)
  have nc_len: "length (buffer_ts nc) = unat newN" "length (buffer_values nc) = unat newN"
    by (simp_all add: nc_def NewChunk_fields SAMPLE_SIZE_def length_malloc_cells
        unat_half_cells szn)
  have nc_cnt: "count nc = 0"
    by (simp add: nc_def NewChunk_fields count_def)
  have "\<exists>nc'. SplitChunk_loop (buffer_ts c) (buffer_values c) (unat cur) (unat newN) 0 nc = Inr nc' \<and>
           count nc' = unat newN \<and> size_b nc' = size_b nc \<and> buffer_in_use nc' = buffer_in_use nc \<and>
           buffer_ts nc' = take 0 (buffer_ts nc) @ take (unat newN - 0) (drop (unat cur + 0) (buffer_ts c))
                             @ drop (unat newN) (buffer_ts nc) \<and>
           buffer_values nc' = take 0 (buffer_values nc)
                             @ take (unat newN - 0) (drop (unat cur + 0) (buffer_values c))
                             @ drop (unat newN) (buffer_values nc) \<and>
           start_ts nc' = (if 0 = (0::nat) \<and> 0 < unat newN then buffer_ts c ! unat cur else start_ts nc)"
  proof (rule SplitChunk_loop_correct)
    show "unat cur + unat newN \<le> length (buffer_ts c)"
      using bh by (simp add: sum buffers_hold_def)
    show "unat cur + unat newN \<le> length (buffer_values c)"
      using bh by (simp add: sum buffers_hold_def)
    show "unat newN < 4294967296" using n32 un by simp
  qed (simp_all add: nc_cnt nc_cap nc_len)
  then obtain r where loop:
      "SplitChunk_loop (buffer_ts c) (buffer_values c) (unat cur) (unat newN) 0 nc = Inr r"
    and r_cnt: "count r = unat newN" and r_size: "size_b r = size_b nc"
    and r_ts: "buffer_ts r = take (unat newN) (drop (unat cur) (buffer_ts c))"
    and r_vs: "buffer_values r = take (unat newN) (drop (unat cur) (buffer_values c))"
    and r_st: "start_ts r = (if 0 < unat newN then buffer_ts c ! unat cur else start_ts nc)"
    using nc_len by auto
  define l where "l = c\<lparr>num_samples := ucast cur, size_b := cur * SAMPLE_SIZE,
      buffer_ts := realloc_cells (fresh_ts mem_re) (buffer_ts c) (cur * 8),
      buffer_values := realloc_cells (fresh_values mem_re) (buffer_values c) (cur * 8)\<rparr>"
  have run: "TurboGorilla_SplitChunk mem_new mem_re c = Inr (l, r)"
    using loop
    by (simp add: TurboGorilla_SplitChunk_def Let_def l_def flip: newN_def cur_def nc_def)
  have l_cnt: "count l = unat cur"
    using n32 uc by (simp add: l_def count_def unat_ucast_64_32)
  have cur_le: "unat cur \<le> length (buffer_ts c)" "unat cur \<le> length (buffer_values c)"
    using bh sum by (simp_all add: buffers_hold_def)
  have l_ts: "buffer_ts l = take (unat cur) (buffer_ts c)"
    using cur_le by (simp add: l_def realloc_cells_shrink szc)
  have l_vs: "buffer_values l = take (unat cur) (buffer_values c)"
    using cur_le by (simp add: l_def realloc_cells_shrink szc)
  have l_smp: "samples l = take (count l) (samples c)"
    using sum by (simp add: samples_def timestamps_def values_of_def l_cnt l_ts l_vs take_zip)
  have newN_eq: "unat newN = count c - unat cur"
    using sum by simp
  have r_smp: "samples r = drop (count l) (samples c)"
    by (simp add: samples_def timestamps_def values_of_def l_cnt r_cnt r_ts r_vs drop_zip
        drop_take newN_eq)
  show thesis
  proof (rule that [of l r])
    show "TurboGorilla_SplitChunk mem_new mem_re c = Inr (l, r)" by (rule run)
    show "count r = count c div 2" by (simp add: r_cnt un)
    show "count l = count c - count c div 2" by (simp add: l_cnt uc)
    show "samples l = take (count l) (samples c)" by (rule l_smp)
    show "samples r = drop (count l) (samples c)" by (rule r_smp)
    have "size_b l = cur * 16" by (simp add: l_def SAMPLE_SIZE_def)
    then show "unat (size_b l) = count l * 16" by (simp add: szc l_cnt)
    show "unat (size_b r) = count r * 16"
      by (simp add: r_size r_cnt nc_def NewChunk_fields SAMPLE_SIZE_def szn)
    show "length (buffer_ts l) = count l" using cur_le by (simp add: l_ts l_cnt)
    show "length (buffer_values l) = count l" using cur_le by (simp add: l_vs l_cnt)
    show "length (buffer_ts r) = count r" using bh sum by (auto simp add: r_ts r_cnt buffers_hold_def)
    show "length (buffer_values r) = count r" using bh sum by (auto simp add: r_vs r_cnt buffers_hold_def)
    show "start_ts l = start_ts c" by (simp add: l_def)
    show "0 < count r \<longrightarrow> start_ts r = buffer_ts c ! count l"
      by (simp add: r_st r_cnt l_cnt)
  qed
qed

section \<open>A forward scan yields the samples\<close>

lemma iterate_forward_from:
  assumes "buffers_hold (chunk iter)" "count (chunk iter) < 2147483648"
    and "0 \<le> currentIndex iter" "nat (currentIndex iter) \<le> count (chunk iter)"
  shows "iterate_forward iter smp = Inr (drop (nat (currentIndex iter)) (samples (chunk iter)))"
  using assms
proof (induction "count (chunk iter) - nat (currentIndex iter)" arbitrary: iter smp)
  case 0
  then have eq: "nat (currentIndex iter) = count (chunk iter)" by simp
  moreover have un: "uint (num_samples (chunk iter)) = int (count (chunk iter))"
    unfolding count_def by (rule uint_nat)
  ultimately have "\<not> as_unsigned (currentIndex iter) < uint (num_samples (chunk iter))"
    using "0.prems"(3) by (simp add: as_unsigned_def)
  then have "TurboGorilla_ChunkIteratorGetNext iter smp = Inr (CR_END, iter, smp)"
    by (simp add: TurboGorilla_ChunkIteratorGetNext_def)
  then show ?case
    using eq "0.prems"(1)
    by (subst iterate_forward.simps) (simp add: length_samples)
next
  case (Suc d)
  define i where "i = nat (currentIndex iter)"
  have lt: "i < count (chunk iter)" using Suc.hyps(2) by (simp add: i_def)
  have ci: "currentIndex iter = int i" using Suc.prems(3) by (simp add: i_def)
  have un: "uint (num_samples (chunk iter)) = int (count (chunk iter))"
    unfolding count_def by (rule uint_nat)
  have cond: "as_unsigned (currentIndex iter) < uint (num_samples (chunk iter))"
    using lt by (simp add: ci as_unsigned_def un)
  have inb: "i < length (buffer_ts (chunk iter))" "i < length (buffer_values (chunk iter))"
    using lt Suc.prems(1) by (simp_all add: buffers_hold_def)
  define iter' where "iter' = iter\<lparr>currentIndex := currentIndex iter + 1\<rparr>"
  define smp' where "smp' = smp\<lparr>timestamp := buffer_ts (chunk iter) ! i,
                                 value_s := buffer_values (chunk iter) ! i\<rparr>"
  have nx: "TurboGorilla_ChunkIteratorGetNext iter smp = Inr (CR_OK, iter', smp')"
    using cond inb lt Suc.prems(2)
    by (simp add: TurboGorilla_ChunkIteratorGetNext_def read_cell_def ci iter'_def smp'_def)
  have ih: "iterate_forward iter' smp' = Inr (drop (nat (currentIndex iter')) (samples (chunk iter')))"
  proof (rule Suc.hyps(1))
    show "d = count (chunk iter') - nat (currentIndex iter')"
      using Suc.hyps(2) Suc.prems(3) by (simp add: iter'_def nat_add_distrib)
    show "nat (currentIndex iter') \<le> count (chunk iter')"
      using lt by (simp add: iter'_def ci)
  qed (use Suc.prems in \<open>simp_all add: iter'_def\<close>)
  have nth: "samples (chunk iter) ! i = (buffer_ts (chunk iter) ! i, buffer_values (chunk iter) ! i)"
    using lt inb by (simp add: samples_def timestamps_def values_of_def)
  have "drop i (samples (chunk iter)) = samples (chunk iter) ! i # drop (Suc i) (samples (chunk iter))"
    using lt Suc.prems(1) by (simp add: Cons_nth_drop_Suc length_samples)
  moreover have "nat (int i + 1) = Suc i" by simp
  ultimately show ?case
    using nx ih nth
    by (subst iterate_forward.simps) (simp add: iter'_def smp'_def ci flip: i_def)
qed

lemma iterate_forward_samples:
  assumes "buffers_hold c" "count c < 2147483648" "opts AND rev_bit = 0"
  shows "iterate_forward (TurboGorilla_NewChunkIterator rev_bit c opts) smp = Inr (samples c)"
  using iterate_forward_from [of "TurboGorilla_NewChunkIterator rev_bit c opts" smp] assms
  by (simp add: TurboGorilla_NewChunkIterator_def)

section \<open>The scan and the insertion of the upsert\<close>

lemma upsert_scan_correct:
  assumes "n \<le> length ts_array" "n \<le> 2147483647" "i \<le> n"
  shows "upsert_scan ts_array ts n i p =
           Inr (p + length (filter (\<lambda>t. t < ts) (take (n - i) (drop i ts_array))))"
  using assms
proof (induction "n - i" arbitrary: i p)
  case 0
  then show ?case by (subst upsert_scan.simps) simp
next
  case (Suc d)
  then have lt: "i < n" by simp
  have dr: "take (n - i) (drop i ts_array) = ts_array ! i # take (n - Suc i) (drop (Suc i) ts_array)"
    using lt Suc.prems by (simp add: take_Suc_Cons flip: Cons_nth_drop_Suc Suc_diff_Suc)
  have ih: "upsert_scan ts_array ts n (Suc i) (p + (if ts_array ! i < ts then 1 else 0)) =
      Inr (p + (if ts_array ! i < ts then 1 else 0)
             + length (filter (\<lambda>t. t < ts) (take (n - Suc i) (drop (Suc i) ts_array))))"
    using Suc.hyps(2) Suc.prems lt by (intro Suc.hyps(1)) simp_all
  have "upsert_scan ts_array ts n i p =
        upsert_scan ts_array ts n (Suc i) (p + (if ts_array ! i < ts then 1 else 0))"
    using lt Suc.prems by (subst upsert_scan.simps) (simp add: read_cell_def)
  then show ?case
    unfolding ih dr by simp
qed

lemma sorted_filter_less:
  "sorted xs \<Longrightarrow> filter (\<lambda>x. x < t) xs = takeWhile (\<lambda>x. x < (t :: 'a :: linorder)) xs"
proof (induction xs)
  case Nil
  then show ?case by simp
next
  case (Cons a xs)
  show ?case
  proof (cases "a < t")
    case True
    with Cons show ?thesis by simp
  next
    case False
    then have "\<forall>x \<in> set xs. \<not> x < t"
      using Cons.prems by auto
    then have "filter (\<lambda>x. x < t) xs = []"
      by (simp add: filter_empty_conv)
    with False show ?thesis by simp
  qed
qed

text \<open>In a sorted list, a member sits at the position given by the number of smaller ones.\<close>

lemma sorted_member_at_pos:
  fixes xs :: "'a :: linorder list"
  assumes "sorted xs" "t \<in> set xs"
  defines "pos \<equiv> length (filter (\<lambda>x. x < t) xs)"
  shows "pos < length xs \<and> xs ! pos = t"
proof -
  have pos: "pos = length (takeWhile (\<lambda>x. x < t) xs)"
    using assms(1) by (simp add: pos_def sorted_filter_less)
  have ne: "dropWhile (\<lambda>x. x < t) xs \<noteq> []"
    using assms(2) by (auto simp add: dropWhile_eq_Nil_conv)
  then have lt: "pos < length xs"
    unfolding pos using length_takeWhile_le [of "\<lambda>x. x < t" xs]
    by (metis append_Nil2 le_neq_implies_less length_append add.right_neutral
        takeWhile_dropWhile_id length_0_conv add_left_cancel)
  have hd: "xs ! pos = hd (dropWhile (\<lambda>x. x < t) xs)"
    using lt unfolding pos by (simp add: hd_dropWhile hd_drop_conv_nth dropWhile_eq_drop)
  have ge: "\<not> xs ! pos < t"
    using ne hd hd_dropWhile [of "\<lambda>x. x < t" xs] by simp
  have "t \<in> set (dropWhile (\<lambda>x. x < t) xs)"
  proof -
    have "t \<notin> set (takeWhile (\<lambda>x. x < t) xs)"
      using set_takeWhileD [of t "\<lambda>x. x < t" xs] by auto
    then show ?thesis
      using assms(2) by (metis Un_iff set_append takeWhile_dropWhile_id)
  qed
  moreover have "sorted (dropWhile (\<lambda>x. x < t) xs)"
    using assms(1) by (metis sorted_append takeWhile_dropWhile_id)
  ultimately have "hd (dropWhile (\<lambda>x. x < t) xs) \<le> t"
    using ne by (cases "dropWhile (\<lambda>x. x < t) xs") auto
  with ge hd have "xs ! pos = t" by simp
  with lt show ?thesis by simp
qed

lemma shift_insert:
  assumes "idx \<le> n" "n < length B"
  obtains B1 where
    "(if idx < n then memmove_cells B (idx + 1) idx (n - idx) else Inr B) = Inr B1"
    "write_cell B1 idx x = Inr (take idx B @ [x] @ take (n - idx) (drop idx B) @ drop (Suc n) B)"
proof (cases "idx < n")
  case True
  define B1 where "B1 = take (Suc idx) B @ take (n - idx) (drop idx B) @ drop (Suc n) B"
  have "B1[idx := x] = take idx B @ [x] @ take (n - idx) (drop idx B) @ drop (Suc n) B"
    using True assms by (simp add: B1_def take_Suc_conv_app_nth list_update_append)
  moreover have "idx < length B1"
    using True assms by (simp add: B1_def)
  ultimately have "write_cell B1 idx x =
      Inr (take idx B @ [x] @ take (n - idx) (drop idx B) @ drop (Suc n) B)"
    by (simp add: write_cell_def)
  moreover have "(if idx < n then memmove_cells B (idx + 1) idx (n - idx) else Inr B) = Inr B1"
    using True assms by (simp add: memmove_cells_def B1_def)
  ultimately show thesis by (rule that [rotated])
next
  case False
  then have "idx = n" using assms by simp
  then have "write_cell B idx x =
      Inr (take idx B @ [x] @ take (n - idx) (drop idx B) @ drop (Suc n) B)"
    using assms by (simp add: write_cell_def upd_conv_take_nth_drop)
  moreover have "(if idx < n then memmove_cells B (idx + 1) idx (n - idx) else Inr B) = Inr B"
    using False by simp
  ultimately show thesis by (rule that [rotated])
qed

lemma take_inserted:
  assumes "idx \<le> n" "n < length B"
  shows "take (Suc n) (take idx B @ [x] @ take (n - idx) (drop idx B) @ drop (Suc n) B) =
         take idx (take n B) @ [x] @ drop idx (take n B)"
proof -
  have "Suc n - idx = Suc (n - idx)"
    using assms by simp
  then show ?thesis
    using assms by (auto simp add: min_def drop_take)
qed

lemma length_inserted:
  assumes "idx \<le> n" "n < length B"
  shows "length (take idx B @ [x] @ take (n - idx) (drop idx B) @ drop (Suc n) B) = length B"
  using assms by simp

lemma upsertChunk_run:
  assumes idx: "idx \<le> count c" and bh: "buffers_hold c" and ca: "capacity_allocated c"
    and wc: "count c \<le> capacity c" and small: "count c < 4294967295"
  obtains c' where
    "upsertChunk mem c idx ts v = Inr c'"
    "timestamps c' = take idx (timestamps c) @ [ts] @ drop idx (timestamps c)"
    "values_of c' = take idx (values_of c) @ [v] @ drop idx (values_of c)"
    "num_samples c' = num_samples c + 1" "count c' = Suc (count c)"
    "size_b c' = (if IsChunkFull c then size_b c + SAMPLE_SIZE else size_b c)"
    "capacity c' = (if IsChunkFull c then Suc (capacity c) else capacity c)"
    "start_ts c' = start_ts c" "buffer_in_use c' = buffer_in_use c"
    "capacity_allocated c'"
proof -
  define n where "n = count c"
  define c1 where "c1 = (if IsChunkFull c
     then c\<lparr>size_b := size_b c + SAMPLE_SIZE,
            buffer_ts := realloc_cells (fresh_ts mem) (buffer_ts c)
                           ((size_b c + SAMPLE_SIZE) div 2 + 8),
            buffer_values := realloc_cells (fresh_values mem) (buffer_values c)
                           ((size_b c + SAMPLE_SIZE) div 2 + 8)\<rparr>
     else c)"
  have ns1: "num_samples c1 = num_samples c" "start_ts c1 = start_ts c"
    "buffer_in_use c1 = buffer_in_use c"
    by (simp_all add: c1_def)
  have sz1: "size_b c1 = (if IsChunkFull c then size_b c + SAMPLE_SIZE else size_b c)"
    by (simp add: c1_def)
  have cap_small: "IsChunkFull c \<Longrightarrow> unat (size_b c) div 16 < 4294967296"
    using small by (simp add: IsChunkFull_iff capacity_eq)
  have cap1: "capacity c1 = (if IsChunkFull c then Suc (capacity c) else capacity c)"
    using cap_small by (auto simp add: capacity_eq sz1 SAMPLE_SIZE_def grown_cells(1))
  have len1: "length (buffer_ts c1) = (if IsChunkFull c then capacity c + 2 else length (buffer_ts c))"
    "length (buffer_values c1) = (if IsChunkFull c then capacity c + 2 else length (buffer_values c))"
    using cap_small
    by (simp_all add: c1_def length_realloc_cells SAMPLE_SIZE_def grown_cells(2) capacity_eq)
  have room: "n < length (buffer_ts c1)" "n < length (buffer_values c1)"
    using wc ca by (auto simp add: len1 n_def IsChunkFull_iff capacity_allocated_def)
  have ca1: "capacity c1 \<le> length (buffer_ts c1)" "capacity c1 \<le> length (buffer_values c1)"
    using ca by (auto simp add: len1 cap1 capacity_allocated_def)
  have pre: "take n (buffer_ts c1) = take n (buffer_ts c)"
    "take n (buffer_values c1) = take n (buffer_values c)"
    using bh cap_small
    by (auto simp add: c1_def n_def buffers_hold_def take_realloc_cells SAMPLE_SIZE_def
        grown_cells(2) IsChunkFull_iff capacity_eq)
  have idx': "idx \<le> n" using idx by (simp add: n_def)
  define ts2 where "ts2 = take idx (buffer_ts c1) @ [ts] @ take (n - idx) (drop idx (buffer_ts c1))
                            @ drop (Suc n) (buffer_ts c1)"
  define vs2 where "vs2 = take idx (buffer_values c1) @ [v]
                            @ take (n - idx) (drop idx (buffer_values c1))
                            @ drop (Suc n) (buffer_values c1)"
  obtain ts1 where t1:
    "(if idx < n then memmove_cells (buffer_ts c1) (idx + 1) idx (n - idx) else Inr (buffer_ts c1))
       = Inr ts1"
    "write_cell ts1 idx ts = Inr ts2"
    unfolding ts2_def using shift_insert [OF idx' room(1)] by metis
  obtain vs1 where v1:
    "(if idx < n then memmove_cells (buffer_values c1) (idx + 1) idx (n - idx)
      else Inr (buffer_values c1)) = Inr vs1"
    "write_cell vs1 idx v = Inr vs2"
    unfolding vs2_def using shift_insert [OF idx' room(2)] by metis
  define c' where "c' = c1\<lparr>buffer_ts := ts2, buffer_values := vs2,
                             num_samples := num_samples c1 + 1\<rparr>"
  have unfold: "upsertChunk mem c idx ts v =
     (case (if idx < unat (num_samples c1)
            then memmove_cells (buffer_ts c1) (idx + 1) idx (unat (num_samples c1) - idx)
            else Inr (buffer_ts c1)) of
           Inl e \<Rightarrow> Inl e
         | Inr ts1 \<Rightarrow>
         (case (if idx < unat (num_samples c1)
                then memmove_cells (buffer_values c1) (idx + 1) idx (unat (num_samples c1) - idx)
                else Inr (buffer_values c1)) of
            Inl e \<Rightarrow> Inl e
          | Inr vs1 \<Rightarrow>
          (case write_cell ts1 idx ts of
             Inl e \<Rightarrow> Inl e
           | Inr ts2 \<Rightarrow>
           (case write_cell vs1 idx v of
              Inl e \<Rightarrow> Inl e
            | Inr vs2 \<Rightarrow>
                Inr (c1\<lparr>buffer_ts := ts2, buffer_values := vs2,
                        num_samples := num_samples c1 + 1\<rparr>)))))"
    by (simp only: upsertChunk_def Let_def c1_def)
  have nn: "unat (num_samples c1) = n"
    by (simp add: ns1 n_def count_def)
  have run: "upsertChunk mem c idx ts v = Inr c'"
    unfolding unfold nn using t1 v1 by (simp add: c'_def)
  have cnt: "count c' = Suc (count c)"
    using small by (simp add: c'_def ns1 count_def unat_succ32')
  have tsx: "timestamps c' = take idx (timestamps c) @ [ts] @ drop idx (timestamps c)"
    unfolding timestamps_def cnt
    using take_inserted [OF idx' room(1), of ts] pre(1)
    by (simp add: c'_def ts2_def flip: n_def)
  have vsx: "values_of c' = take idx (values_of c) @ [v] @ drop idx (values_of c)"
    unfolding values_of_def cnt
    using take_inserted [OF idx' room(2), of v] pre(2)
    by (simp add: c'_def vs2_def flip: n_def)
  have ca': "capacity_allocated c'"
    using ca1 length_inserted [OF idx' room(1), of ts] length_inserted [OF idx' room(2), of v]
    by (simp add: capacity_allocated_def c'_def capacity_def ts2_def vs2_def)
  show thesis
  proof (rule that [of c'])
    show "upsertChunk mem c idx ts v = Inr c'" by (rule run)
    show "num_samples c' = num_samples c + 1" by (simp add: c'_def ns1)
    show "size_b c' = (if IsChunkFull c then size_b c + SAMPLE_SIZE else size_b c)"
      by (simp add: c'_def sz1)
    show "capacity c' = (if IsChunkFull c then Suc (capacity c) else capacity c)"
      using cap1 by (simp add: c'_def capacity_def)
    show "start_ts c' = start_ts c" by (simp add: c'_def ns1)
    show "buffer_in_use c' = buffer_in_use c" by (simp add: c'_def ns1)
  qed (rule tsx vsx cnt ca')+
qed

lemma zip_inserted:
  assumes "length T = length V"
  shows "zip (take p T @ [t] @ drop p T) (take p V @ [v] @ drop p V) =
         take p (zip T V) @ [(t, v)] @ drop p (zip T V)"
  using assms by (simp add: take_zip drop_zip)

lemma UpsertSample_scan:
  assumes bh: "buffers_hold c" and small: "count c < 2147483648"
  shows "upsert_scan (buffer_ts c) ts (unat (num_samples c)) 0 0 =
           Inr (length (filter (\<lambda>t. t < ts) (timestamps c)))"
proof -
  have "upsert_scan (buffer_ts c) ts (count c) 0 0 =
        Inr (0 + length (filter (\<lambda>t. t < ts) (take (count c - 0) (drop 0 (buffer_ts c)))))"
    using bh small by (intro upsert_scan_correct) (simp_all add: buffers_hold_def)
  then show ?thesis
    by (simp add: timestamps_def count_def)
qed

lemma UpsertSample_found:
  fixes uCtx :: UpsertCtx
  defines "c \<equiv> inChunk uCtx" and "ts \<equiv> timestamp (sample uCtx)" and "v \<equiv> value_s (sample uCtx)"
  defines "pos \<equiv> length (filter (\<lambda>t. t < ts) (timestamps c))"
  assumes bh: "buffers_hold c" and srt: "sorted (timestamps c)" and small: "count c < 2147483648"
    and mem: "ts \<in> set (timestamps c)"
  shows "timestamps c ! pos = ts" and "pos < count c"
    and "TurboGorilla_UpsertSample hds mem uCtx pol =
          (case hds pol (values_of c ! pos) v of
             (cr, v') \<Rightarrow>
               if cr \<noteq> CR_OK
               then Inr (CR_ERR, uCtx\<lparr>sample := (sample uCtx)\<lparr>value_s := v'\<rparr>\<rparr>, 0)
               else Inr (CR_OK,
                         uCtx\<lparr>sample := (sample uCtx)\<lparr>value_s := v'\<rparr>,
                               inChunk := c\<lparr>buffer_values := (buffer_values c)[pos := v']\<rparr>\<rparr>,
                         0))"
proof -
  have len: "length (timestamps c) = count c"
    using bh by (simp add: timestamps_def buffers_hold_def)
  have at: "pos < length (timestamps c) \<and> timestamps c ! pos = ts"
    unfolding pos_def using srt mem by (rule sorted_member_at_pos)
  then show p1: "timestamps c ! pos = ts" and p2: "pos < count c"
    by (simp_all add: len)
  have rd: "buffer_ts c ! pos = ts" "values_of c ! pos = buffer_values c ! pos"
    using p1 p2 by (simp_all add: timestamps_def values_of_def)
  have inb: "pos < length (buffer_ts c)" "pos < length (buffer_values c)"
    using p2 bh by (simp_all add: buffers_hold_def)
  have scan: "upsert_scan (buffer_ts c) ts (unat (num_samples c)) 0 0 = Inr pos"
    unfolding pos_def using bh small by (rule UpsertSample_scan)
  have p2': "pos < unat (num_samples c)"
    using p2 by (simp add: count_def)
  show "TurboGorilla_UpsertSample hds mem uCtx pol =
          (case hds pol (values_of c ! pos) v of
             (cr, v') \<Rightarrow>
               if cr \<noteq> CR_OK
               then Inr (CR_ERR, uCtx\<lparr>sample := (sample uCtx)\<lparr>value_s := v'\<rparr>\<rparr>, 0)
               else Inr (CR_OK,
                         uCtx\<lparr>sample := (sample uCtx)\<lparr>value_s := v'\<rparr>,
                               inChunk := c\<lparr>buffer_values := (buffer_values c)[pos := v']\<rparr>\<rparr>,
                         0))"
    unfolding TurboGorilla_UpsertSample_def Let_def
    using scan p2' inb rd
    by (simp add: read_cell_def write_cell_def split: prod.splits flip: c_def ts_def v_def)
qed

lemma UpsertSample_absent:
  fixes uCtx :: UpsertCtx
  defines "c \<equiv> inChunk uCtx" and "ts \<equiv> timestamp (sample uCtx)" and "v \<equiv> value_s (sample uCtx)"
  defines "pos \<equiv> length (filter (\<lambda>t. t < ts) (timestamps c))"
  assumes bh: "buffers_hold c" and ca: "capacity_allocated c" and wc: "count c \<le> capacity c"
    and small: "count c < 2147483648" and absent: "ts \<notin> set (timestamps c)"
  obtains c' where
    "TurboGorilla_UpsertSample hds mem uCtx pol = Inr (CR_OK, uCtx\<lparr>inChunk := c'\<rparr>, 1)"
    "timestamps c' = take pos (timestamps c) @ [ts] @ drop pos (timestamps c)"
    "values_of c' = take pos (values_of c) @ [v] @ drop pos (values_of c)"
    "num_samples c' = num_samples c + 1" "count c' = Suc (count c)"
    "size_b c' = (if IsChunkFull c then size_b c + SAMPLE_SIZE else size_b c)"
    "capacity c' = (if IsChunkFull c then Suc (capacity c) else capacity c)"
    "start_ts c' = (if pos = 0 then ts else start_ts c)" "buffer_in_use c' = buffer_in_use c"
    "capacity_allocated c'"
proof -
  have len: "length (timestamps c) = count c"
    using bh by (simp add: timestamps_def buffers_hold_def)
  have pos_le: "pos \<le> count c"
    unfolding pos_def using length_filter_le [of "\<lambda>t. t < ts" "timestamps c"] by (simp add: len)
  have scan: "upsert_scan (buffer_ts c) ts (unat (num_samples c)) 0 0 = Inr pos"
    unfolding pos_def using bh small by (rule UpsertSample_scan)
  have nf: "buffer_ts c ! pos \<noteq> ts" if "pos < unat (num_samples c)"
  proof -
    have "timestamps c ! pos \<in> set (timestamps c)"
      using that by (simp add: len count_def)
    moreover have "timestamps c ! pos = buffer_ts c ! pos"
      using that by (simp add: timestamps_def count_def)
    ultimately show ?thesis using absent by metis
  qed
  have inb: "pos < length (buffer_ts c)" if "pos < unat (num_samples c)"
    using that bh by (simp add: buffers_hold_def count_def)
  define c1 where "c1 = (if pos = 0 then c\<lparr>start_ts := ts\<rparr> else c)"
  have c1: "count c1 = count c" "capacity c1 = capacity c" "timestamps c1 = timestamps c"
    "values_of c1 = values_of c" "buffers_hold c1" "capacity_allocated c1"
    "num_samples c1 = num_samples c" "size_b c1 = size_b c" "IsChunkFull c1 = IsChunkFull c"
    "start_ts c1 = (if pos = 0 then ts else start_ts c)" "buffer_in_use c1 = buffer_in_use c"
    using bh ca
    by (simp_all add: c1_def count_def capacity_def timestamps_def values_of_def
        buffers_hold_def capacity_allocated_def IsChunkFull_def)
  have h1: "pos \<le> count c1" using pos_le by (simp add: c1)
  have h2: "count c1 \<le> capacity c1" using wc by (simp add: c1)
  have h3: "count c1 < 4294967295" using small by (simp add: c1)
  obtain c' where up: "upsertChunk mem c1 pos ts v = Inr c'"
    and r: "timestamps c' = take pos (timestamps c1) @ [ts] @ drop pos (timestamps c1)"
    "values_of c' = take pos (values_of c1) @ [v] @ drop pos (values_of c1)"
    "num_samples c' = num_samples c1 + 1" "count c' = Suc (count c1)"
    "size_b c' = (if IsChunkFull c1 then size_b c1 + SAMPLE_SIZE else size_b c1)"
    "capacity c' = (if IsChunkFull c1 then Suc (capacity c1) else capacity c1)"
    "start_ts c' = start_ts c1" "buffer_in_use c' = buffer_in_use c1"
    "capacity_allocated c'"
    by (rule upsertChunk_run [OF h1 c1(5) c1(6) h2 h3, of mem ts v])
  have run: "TurboGorilla_UpsertSample hds mem uCtx pol = Inr (CR_OK, uCtx\<lparr>inChunk := c'\<rparr>, 1)"
    unfolding TurboGorilla_UpsertSample_def Let_def
    using scan nf inb up
    by (simp add: read_cell_def flip: c_def ts_def v_def) (auto simp add: c1_def)
  show thesis
    using run r unfolding c1 by (rule that)
qed

section \<open>The operations preserve the data model\<close>

lemma chunk_okI:
  assumes "sorted_wrt (<) (timestamps c)" "count c \<le> capacity c"
    and "0 < count c \<Longrightarrow> start_ts c = buffer_ts c ! 0"
    and "capacity c \<le> length (buffer_ts c)" "capacity c \<le> length (buffer_values c)"
  shows "chunk_ok c"
  using assms
  by (auto simp add: chunk_ok_def chunk_inv_def ts_ascending_def within_capacity_iff
      start_ts_cached_def buffers_hold_def capacity_allocated_def)

lemma chunk_okD:
  assumes "chunk_ok c"
  shows "sorted_wrt (<) (timestamps c)" "count c \<le> capacity c"
    "0 < count c \<Longrightarrow> start_ts c = buffer_ts c ! 0"
    "capacity c \<le> length (buffer_ts c)" "capacity c \<le> length (buffer_values c)"
    "buffers_hold c" "capacity_allocated c" "length (timestamps c) = count c"
  using assms
  by (auto simp add: chunk_ok_def chunk_inv_def ts_ascending_def within_capacity_iff
      start_ts_cached_def buffers_hold_def capacity_allocated_def timestamps_def)

lemma timestamps_nth: "i < count c \<Longrightarrow> timestamps c ! i = buffer_ts c ! i"
  by (simp add: timestamps_def)

lemma unat_not_max32:
  assumes "n \<noteq> (- 1 :: 32 word)"
  shows "unat n < 4294967295"
proof -
  have "unat (- 1 :: 32 word) = 4294967295"
    by (simp add: unsigned_minus_1_eq_mask mask_eq_exp_minus_1)
  then have "unat n \<noteq> 4294967295"
    using assms by (metis word_unat_eq_iff)
  with unat_lt_2p32 [of n] show ?thesis by arith
qed

text \<open>Append.\<close>

lemma AddSampleOptimized_preserves:
  assumes ok: "chunk_ok c" and mono: "\<forall>t \<in> set (timestamps c). t < ts"
    and run: "TurboGorilla_AddSampleOptimized c ts v = Inr (CR_OK, c')"
  shows "chunk_ok c'"
proof -
  note d = chunk_okD [OF ok]
  have nf: "\<not> IsChunkFull c"
    using run by (auto simp add: TurboGorilla_AddSampleOptimized_def)
  then have lt: "count c < capacity c"
    using d(2) by (simp add: IsChunkFull_iff)
  have room: "count c < length (buffer_ts c)" "count c < length (buffer_values c)"
    using lt d(4,5) by simp_all
  have c': "c' = c\<lparr>start_ts := (if num_samples c = 0 then ts else start_ts c),
                          buffer_ts := (buffer_ts c)[count c := ts],
                          buffer_values := (buffer_values c)[count c := v],
                          num_samples := num_samples c + 1\<rparr>"
    using run AddSampleOptimized_run [OF nf room, of ts v] by simp
  have cap: "capacity c' = capacity c"
    by (simp add: c' capacity_def)
  have zero: "num_samples c = 0 \<longleftrightarrow> count c = 0"
    using unat_eq_zero [of "num_samples c"] by (auto simp add: count_def)
  show ?thesis
  proof (cases "num_samples c = - 1")
    case True
    then have "count c' = 0"
      by (simp add: c' count_def)
    then show ?thesis
      using d(4,5) cap by (intro chunk_okI) (simp_all add: timestamps_def, simp_all add: c')
  next
    case False
    then have "unat (num_samples c) < 4294967295"
      by (rule unat_not_max32)
    then have cnt: "count c' = Suc (count c)"
      by (simp add: c' count_def unat_succ32')
    have ts': "timestamps c' = timestamps c @ [ts]"
      using room by (simp add: timestamps_def cnt) (simp add: c' take_Suc_conv_app_nth)
    show ?thesis
    proof (rule chunk_okI)
      show "sorted_wrt (<) (timestamps c')"
        using d(1) mono by (simp add: ts' sorted_wrt_append)
      show "count c' \<le> capacity c'"
        using lt by (simp add: cnt cap)
      show "start_ts c' = buffer_ts c' ! 0"
        using d(3) room zero by (cases "count c = 0") (simp_all add: c')
      show "capacity c' \<le> length (buffer_ts c')" "capacity c' \<le> length (buffer_values c')"
        using d(4,5) cap by (simp_all add: c')
    qed
  qed
qed


text \<open>Upsert.\<close>

lemma upsert_scan_overflow:
  assumes "2147483647 < n" "i \<le> 2147483647"
  shows "\<exists>e. upsert_scan ts_array ts n i p = Inl e"
  using assms
proof (induction "2147483647 - i" arbitrary: i p)
  case 0
  then have "i = 2147483647" by arith
  then show ?case
    using "0.prems" by (subst upsert_scan.simps) (simp add: read_cell_def)
next
  case (Suc d)
  then have lt: "i < 2147483647" by arith
  have "\<exists>e. upsert_scan ts_array ts n (i + 1) (p + (if ts_array ! i < ts then 1 else 0)) = Inl e"
  proof (rule Suc.hyps(1))
    show "d = 2147483647 - (i + 1)" using Suc.hyps(2) by arith
    show "2147483647 < n" by (rule Suc.prems(1))
    show "i + 1 \<le> 2147483647" using lt by arith
  qed
  then show ?case
    using lt Suc.prems by (subst upsert_scan.simps) (auto simp add: read_cell_def)
qed

lemma dropWhile_less_sorted:
  "sorted xs \<Longrightarrow> \<forall>x \<in> set (dropWhile (\<lambda>x. x < t) xs). \<not> x < (t :: 'a :: linorder)"
proof (induction xs)
  case Nil
  then show ?case by simp
next
  case (Cons a xs)
  show ?case
  proof (cases "a < t")
    case True
    then have "dropWhile (\<lambda>x. x < t) (a # xs) = dropWhile (\<lambda>x. x < t) xs"
      by simp
    moreover have "sorted xs"
      using Cons.prems by simp
    then have "\<forall>x \<in> set (dropWhile (\<lambda>x. x < t) xs). \<not> x < t"
      by (rule Cons.IH)
    ultimately show ?thesis by (simp only:)
  next
    case False
    have "\<not> x < t" if "x \<in> set xs" for x
    proof -
      have "a \<le> x" using Cons.prems that by simp
      with False show ?thesis by simp
    qed
    with False show ?thesis by simp
  qed
qed

lemma sorted_insert_strict:
  fixes T :: "'a :: linorder list"
  assumes "sorted_wrt (<) T" "t \<notin> set T"
  defines "pos \<equiv> length (filter (\<lambda>x. x < t) T)"
  shows "sorted_wrt (<) (take pos T @ [t] @ drop pos T)"
proof -
  have srt: "sorted T"
    using assms(1) by (rule strict_sorted_imp_sorted)
  have pos: "pos = length (takeWhile (\<lambda>x. x < t) T)"
    using srt by (simp add: pos_def sorted_filter_less)
  have A: "take pos T = takeWhile (\<lambda>x. x < t) T"
    unfolding pos by (rule takeWhile_eq_take [symmetric])
  have B: "drop pos T = dropWhile (\<lambda>x. x < t) T"
    unfolding pos by (rule dropWhile_eq_drop [symmetric])
  have lo: "\<forall>a \<in> set (take pos T). a < t"
    unfolding A by (auto dest: set_takeWhileD)
  have "\<forall>b \<in> set (drop pos T). \<not> b < t"
    unfolding B using srt by (rule dropWhile_less_sorted)
  moreover have "\<forall>b \<in> set (drop pos T). b \<noteq> t"
    using assms(2) by (auto dest: in_set_dropD)
  ultimately have hi: "\<forall>b \<in> set (drop pos T). t < b"
    by (simp add: not_less order_le_less) blast
  have parts: "sorted_wrt (<) (take pos T)" "sorted_wrt (<) (drop pos T)"
    using assms(1) by (simp_all add: sorted_wrt_take sorted_wrt_drop)
  have "a < b" if "a \<in> set (take pos T)" "b \<in> set (drop pos T)" for a b
  proof -
    have "a < t" "t < b" using that lo hi by simp_all
    then show ?thesis by (rule less_trans)
  qed
  then have "\<forall>a \<in> set (take pos T). \<forall>b \<in> set (drop pos T). a < b"
    by simp
  then show ?thesis
    using lo hi parts by (simp add: sorted_wrt_append)
qed

lemma UpsertSample_preserves:
  assumes ok: "chunk_ok (inChunk uCtx)"
    and run: "TurboGorilla_UpsertSample hds mem uCtx pol = Inr (CR_OK, uCtx', k)"
  shows "chunk_ok (inChunk uCtx')"
proof -
  define c where "c = inChunk uCtx"
  define ts where "ts = timestamp (sample uCtx)"
  define v where "v = value_s (sample uCtx)"
  define pos where "pos = length (filter (\<lambda>t. t < ts) (timestamps c))"
  note d = chunk_okD [OF ok [folded c_def]]
  have small: "count c < 2147483648"
  proof (rule ccontr)
    assume "\<not> count c < 2147483648"
    then have "2147483647 < unat (num_samples c)"
      by (simp add: count_def)
    then obtain e where "upsert_scan (buffer_ts c) ts (unat (num_samples c)) 0 0 = Inl e"
      using upsert_scan_overflow [of "unat (num_samples c)" 0 "buffer_ts c" ts 0] by auto
    then have "TurboGorilla_UpsertSample hds mem uCtx pol = Inl e"
      by (simp add: TurboGorilla_UpsertSample_def Let_def flip: c_def ts_def)
    with run show False by simp
  qed
  have srt: "sorted (timestamps c)"
    using d(1) by (rule strict_sorted_imp_sorted)
  show ?thesis
  proof (cases "ts \<in> set (timestamps c)")
    case True
    have eq: "TurboGorilla_UpsertSample hds mem uCtx pol =
          (case hds pol (values_of c ! pos) v of
             (cr, v') \<Rightarrow>
               if cr \<noteq> CR_OK
               then Inr (CR_ERR, uCtx\<lparr>sample := (sample uCtx)\<lparr>value_s := v'\<rparr>\<rparr>, 0)
               else Inr (CR_OK,
                         uCtx\<lparr>sample := (sample uCtx)\<lparr>value_s := v'\<rparr>,
                               inChunk := c\<lparr>buffer_values := (buffer_values c)[pos := v']\<rparr>\<rparr>,
                         0))"
      unfolding pos_def ts_def c_def v_def
      using d(6) [unfolded c_def] srt [unfolded c_def] small [unfolded c_def]
        True [unfolded ts_def c_def]
      by (rule UpsertSample_found(3))
    obtain cr v' where r: "hds pol (values_of c ! pos) v = (cr, v')"
      by (cases "hds pol (values_of c ! pos) v")
    have c': "inChunk uCtx' = c\<lparr>buffer_values := (buffer_values c)[pos := v']\<rparr>"
      using run unfolding eq r by (auto split: if_splits)
    show ?thesis
      unfolding c' using d(1-5)
      by (intro chunk_okI) (simp_all add: timestamps_def count_def capacity_def)
  next
    case False
    obtain c' where r: "TurboGorilla_UpsertSample hds mem uCtx pol =
          Inr (CR_OK, uCtx\<lparr>inChunk := c'\<rparr>, 1)"
      "timestamps c' = take pos (timestamps c) @ [ts] @ drop pos (timestamps c)"
      "values_of c' = take pos (values_of c) @ [v] @ drop pos (values_of c)"
      "num_samples c' = num_samples c + 1" "count c' = Suc (count c)"
      "size_b c' = (if IsChunkFull c then size_b c + SAMPLE_SIZE else size_b c)"
      "capacity c' = (if IsChunkFull c then Suc (capacity c) else capacity c)"
      "start_ts c' = (if pos = 0 then ts else start_ts c)" "buffer_in_use c' = buffer_in_use c"
      "capacity_allocated c'"
      unfolding pos_def ts_def c_def v_def
      by (rule UpsertSample_absent [of uCtx hds mem pol,
          OF d(6) [unfolded c_def] d(7) [unfolded c_def] d(2) [unfolded c_def]
            small [unfolded c_def] False [unfolded ts_def c_def]])
    have c': "inChunk uCtx' = c'"
      using run unfolding r(1) by auto
    have pos_le: "pos \<le> count c"
      unfolding pos_def using length_filter_le [of "\<lambda>t. t < ts" "timestamps c"]
      by (simp add: d(8))
    show ?thesis
      unfolding c'
    proof (rule chunk_okI)
      show "sorted_wrt (<) (timestamps c')"
        unfolding r(2) pos_def using d(1) False by (rule sorted_insert_strict)
      show "count c' \<le> capacity c'"
        using d(2) by (auto simp add: r(5,7) IsChunkFull_iff)
      show "capacity c' \<le> length (buffer_ts c')" "capacity c' \<le> length (buffer_values c')"
        using r(10) by (simp_all add: capacity_allocated_def)
      show "start_ts c' = buffer_ts c' ! 0"
      proof (cases "pos = 0")
        case True
        have "timestamps c' ! 0 = ts"
          by (simp add: r(2) True)
        then show ?thesis
          using timestamps_nth [of 0 c'] by (simp add: r(5,8) True)
      next
        case False
        then have p: "0 < pos" by simp
        then have "timestamps c' ! 0 = timestamps c ! 0"
          using pos_le d(8) by (simp add: r(2) nth_append)
        then have "buffer_ts c' ! 0 = buffer_ts c ! 0"
          using timestamps_nth [of 0 c'] timestamps_nth [of 0 c] p pos_le by (simp add: r(5))
        then show ?thesis
          using d(3) p pos_le False by (simp add: r(8))
      qed
    qed
  qed
qed

text \<open>Split.\<close>

lemma SplitChunk_preserves:
  assumes ok: "chunk_ok c" and run: "TurboGorilla_SplitChunk mem_new mem_re c = Inr (l, r)"
  shows "chunk_ok l \<and> chunk_ok r"
proof -
  note d = chunk_okD [OF ok]
  obtain l' r' where run': "TurboGorilla_SplitChunk mem_new mem_re c = Inr (l', r')"
    and cr: "count r' = count c div 2" and cl: "count l' = count c - count c div 2"
    and sl: "samples l' = take (count l') (samples c)"
    and sr: "samples r' = drop (count l') (samples c)"
    and sz: "unat (size_b l') = count l' * 16" "unat (size_b r') = count r' * 16"
    and len: "length (buffer_ts l') = count l'" "length (buffer_values l') = count l'"
      "length (buffer_ts r') = count r'" "length (buffer_values r') = count r'"
    and st: "start_ts l' = start_ts c" "0 < count r' \<longrightarrow> start_ts r' = buffer_ts c ! count l'"
    by (rule SplitChunk_facts [OF d(6), of mem_new mem_re])
  have eq: "l = l'" "r = r'"
    using run run' by simp_all
  have bl: "buffers_hold l'" and br: "buffers_hold r'"
    using len by (simp_all add: buffers_hold_def)
  have tl: "timestamps l' = take (count l') (timestamps c)"
    using map_fst_samples [OF bl] map_fst_samples [OF d(6)] by (metis sl take_map)
  have tr: "timestamps r' = drop (count l') (timestamps c)"
    using map_fst_samples [OF br] map_fst_samples [OF d(6)] by (metis sr drop_map)
  have cap: "capacity l' = count l'" "capacity r' = count r'"
    by (simp_all add: capacity_eq sz)
  have okl: "chunk_ok l'"
  proof (rule chunk_okI)
    show "sorted_wrt (<) (timestamps l')"
      using d(1) by (simp add: tl sorted_wrt_take)
    show "start_ts l' = buffer_ts l' ! 0" if "0 < count l'"
    proof -
      have "0 < count c" using that cl by simp
      then have "start_ts c = timestamps c ! 0"
        using d(3) by (simp add: timestamps_nth)
      also have "\<dots> = timestamps l' ! 0"
        using that by (simp add: tl)
      also have "\<dots> = buffer_ts l' ! 0"
        using that by (rule timestamps_nth)
      finally show ?thesis by (simp add: st(1))
    qed
  qed (simp_all add: cap len)
  have okr: "chunk_ok r'"
  proof (rule chunk_okI)
    show "sorted_wrt (<) (timestamps r')"
      using d(1) by (simp add: tr sorted_wrt_drop)
    show "start_ts r' = buffer_ts r' ! 0" if "0 < count r'"
    proof -
      have lt: "count l' < count c" using that cl cr by simp
      have "buffer_ts r' ! 0 = timestamps r' ! 0"
        using that by (simp add: timestamps_nth)
      also have "\<dots> = timestamps c ! count l'"
        using lt d(8) by (simp add: tr)
      also have "\<dots> = buffer_ts c ! count l'"
        using lt by (rule timestamps_nth)
      finally show ?thesis using st(2) that by simp
    qed
  qed (simp_all add: cap len)
  show ?thesis
    using okl okr by (simp add: eq)
qed

text \<open>Range delete.\<close>

lemma DelRange_no_capacity:
  assumes "capacity c = 0" "count c = 0"
  shows "TurboGorilla_DelRange mem c s e = Inl OutOfBounds"
proof -
  have e1: "malloc_cells (fresh_ts mem) (size_b c div 2) = []"
    using assms(1) length_malloc_cells [of "fresh_ts mem" "size_b c div 2"]
    by (simp add: unat_half_cells capacity_eq)
  have e2: "malloc_cells (fresh_values mem) (size_b c div 2) = []"
    using assms(1) length_malloc_cells [of "fresh_values mem" "size_b c div 2"]
    by (simp add: unat_half_cells capacity_eq)
  have n: "unat (num_samples c) = 0"
    using assms(2) by (simp add: count_def)
  have "DelRange_loop (buffer_ts c) (buffer_values c) 0 s e 0 0 [] [] = Inr ([], [], 0)"
    by (subst DelRange_loop.simps) simp
  then show ?thesis
    by (simp add: TurboGorilla_DelRange_def Let_def e1 e2 n read_cell_def)
qed

lemma DelRange_preserves:
  assumes ok: "chunk_ok c" and run: "TurboGorilla_DelRange mem c s e = Inr (c', d)"
  shows "chunk_ok c'"
proof -
  note k = chunk_okD [OF ok]
  have cap: "0 < capacity c"
  proof (rule ccontr)
    assume "\<not> 0 < capacity c"
    then have "capacity c = 0" "count c = 0"
      using k(2) by simp_all
    then have "TurboGorilla_DelRange mem c s e = Inl OutOfBounds"
      by (rule DelRange_no_capacity)
    with run show False by simp
  qed
  obtain c'' d'' where run': "TurboGorilla_DelRange mem c s e = Inr (c'', d'')"
    and sm: "samples c'' = survivors s e (samples c)"
    and cn: "count c'' = length (survivors s e (samples c))"
    and st: "start_ts c'' = buffer_ts c'' ! 0"
    and dl: "unat d'' = count c - count c''"
    and sz: "size_b c'' = size_b c"
    and len: "length (buffer_ts c'') = capacity c" "length (buffer_values c'') = capacity c"
    and iu: "buffer_in_use c'' = buffer_in_use c"
    by (rule DelRange_facts [OF k(6) k(2) cap, of mem s e])
  have eq: "c' = c''"
    using run run' by simp
  have le: "count c'' \<le> count c"
    using length_survivors_le [of s e "samples c"] k(6) by (simp add: cn length_samples)
  have cap': "capacity c'' = capacity c"
    by (simp add: capacity_def sz)
  have bh: "buffers_hold c''"
    using le k(2) len by (simp add: buffers_hold_def)
  have "timestamps c'' = map fst (filter (\<lambda>p. \<not> in_range s e p) (samples c))"
    using map_fst_samples [OF bh] by (simp add: sm survivors_def)
  also have "\<dots> = filter (\<lambda>t. \<not> (s \<le> t \<and> t \<le> e)) (map fst (samples c))"
    by (simp add: filter_map comp_def in_range_def)
  finally have ts: "timestamps c'' = filter (\<lambda>t. \<not> (s \<le> t \<and> t \<le> e)) (timestamps c)"
    by (simp add: map_fst_samples [OF k(6)])
  show ?thesis
    unfolding eq
  proof (rule chunk_okI)
    show "sorted_wrt (<) (timestamps c'')"
      using k(1) by (simp add: ts sorted_wrt_filter)
    show "count c'' \<le> capacity c''"
      using le k(2) by (simp add: cap')
    show "start_ts c'' = buffer_ts c'' ! 0" by (rule st)
  qed (simp_all add: cap' len)
qed

section \<open>First and last timestamp\<close>

lemma unat_pred32: "n \<noteq> 0 \<Longrightarrow> unat (n - 1 :: 32 word) = unat n - 1"
  by (simp add: unat_minus_one)

text \<open>
  C10. On a chunk with no samples, get-first-timestamp and get-last-timestamp return the
  sentinel -1, which in the unsigned 64-bit timestamp type is \<open>2^64 - 1\<close>, whatever the
  timestamp buffer is (also an empty one: it is not read). On a chunk with samples,
  whose buffer is allocated for them, they return the first and the last stored
  timestamp.
\<close>

theorem first_last_timestamp:
  "(num_samples c = 0 \<longrightarrow>
      TurboGorilla_GetFirstTimestamp c = Inr (- 1) \<and>
      TurboGorilla_GetLastTimestamp c = Inr (- 1) \<and>
      unat (- 1 :: timestamp_t) = 2 ^ 64 - 1) \<and>
   (num_samples c \<noteq> 0 \<and> count c \<le> length (buffer_ts c) \<longrightarrow>
      TurboGorilla_GetFirstTimestamp c = Inr (hd (timestamps c)) \<and>
      TurboGorilla_GetLastTimestamp c = Inr (last (timestamps c)) \<and>
      timestamps c \<noteq> [])"
proof (intro conjI impI)
  assume "num_samples c = 0"
  then show "TurboGorilla_GetFirstTimestamp c = Inr (- 1)"
    by (simp add: TurboGorilla_GetFirstTimestamp_def)
  from \<open>num_samples c = 0\<close> show "TurboGorilla_GetLastTimestamp c = Inr (- 1)"
    by (simp add: TurboGorilla_GetLastTimestamp_def)
next
  show "unat (- 1 :: timestamp_t) = 2 ^ 64 - 1"
    by (simp add: unsigned_minus_1_eq_mask mask_eq_exp_minus_1)
next
  assume h: "num_samples c \<noteq> 0 \<and> count c \<le> length (buffer_ts c)"
  then have pos: "0 < count c"
    by (simp add: count_def unat_gt_0)
  with h have ne: "buffer_ts c \<noteq> []" by auto
  from pos ne show "timestamps c \<noteq> []"
    by (simp add: timestamps_def)
  from pos ne h show "TurboGorilla_GetFirstTimestamp c = Inr (hd (timestamps c))"
    by (simp add: TurboGorilla_GetFirstTimestamp_def read_cell_def timestamps_def hd_conv_nth)
  have len: "length (timestamps c) = count c"
    using h by (simp add: timestamps_def)
  have "last (timestamps c) = timestamps c ! (count c - 1)"
    using pos len \<open>timestamps c \<noteq> []\<close> by (simp add: last_conv_nth)
  also have "\<dots> = buffer_ts c ! (count c - 1)"
    using pos by (simp add: timestamps_def)
  finally have l: "last (timestamps c) = buffer_ts c ! (count c - 1)" .
  have idx: "unat (num_samples c - 1) = count c - 1"
    using h by (simp add: count_def unat_pred32)
  have inb: "count c - 1 < length (buffer_ts c)"
    using h pos by arith
  from h idx l inb show "TurboGorilla_GetLastTimestamp c = Inr (last (timestamps c))"
    by (simp add: TurboGorilla_GetLastTimestamp_def read_cell_def)
qed

theorem first_last_timestamp_witness:
  "TurboGorilla_GetFirstTimestamp
     \<lparr>start_ts = 0, num_samples = 0, size_b = 0, buffer_in_use = True,
      buffer_ts = [], buffer_values = []\<rparr> = Inr 18446744073709551615 \<and>
   TurboGorilla_GetLastTimestamp
     \<lparr>start_ts = 0, num_samples = 0, size_b = 0, buffer_in_use = True,
      buffer_ts = [], buffer_values = []\<rparr> = Inr 18446744073709551615 \<and>
   TurboGorilla_GetFirstTimestamp
     \<lparr>start_ts = 100, num_samples = 3, size_b = 64, buffer_in_use = True,
      buffer_ts = [100, 200, 300, 7], buffer_values = [1, 2, 3, 9]\<rparr> = Inr 100 \<and>
   TurboGorilla_GetLastTimestamp
     \<lparr>start_ts = 100, num_samples = 3, size_b = 64, buffer_in_use = True,
      buffer_ts = [100, 200, 300, 7], buffer_values = [1, 2, 3, 9]\<rparr> = Inr 300"
  using first_last_timestamp
    [of "\<lparr>start_ts = 0, num_samples = 0, size_b = 0, buffer_in_use = True,
          buffer_ts = [], buffer_values = []\<rparr>"]
    first_last_timestamp
    [of "\<lparr>start_ts = 100, num_samples = 3, size_b = 64, buffer_in_use = True,
          buffer_ts = [100, 200, 300, 7], buffer_values = [1, 2, 3, 9]\<rparr>"]
  by (simp add: count_def timestamps_def)

section \<open>Append\<close>

lemma unat_succ32: "n \<noteq> - 1 \<Longrightarrow> unat (n + 1 :: 32 word) = Suc (unat n)"
  by (metis add.commute add_eq_0_iff2 unatSuc)

lemma samples_snoc:
  assumes "count c < length (buffer_ts c)" "count c < length (buffer_values c)"
    and "count c' = Suc (count c)"
    and "buffer_ts c' = (buffer_ts c)[count c := t]"
    and "buffer_values c' = (buffer_values c)[count c := v]"
  shows "samples c' = samples c @ [(t, v)]"
  using assms by (simp add: samples_def timestamps_def values_of_def take_Suc_conv_app_nth)

text \<open>
  C8. The append path on a chunk at capacity (\<open>num_samples = size / SAMPLE_SIZE\<close>) returns
  \<open>CR_END\<close>, not \<open>CR_ERR\<close>, and the chunk it leaves is the chunk it was given. On a chunk
  that is not at capacity and has the slot \<open>num_samples\<close> allocated in both buffers, it
  returns \<open>CR_OK\<close> for every timestamp and value: the sample is written at the tail,
  \<open>start_ts\<close> becomes the timestamp when the chunk was empty and is kept otherwise,
  \<open>num_samples\<close> is incremented (as a 32-bit counter), nothing else changes, and unless
  the counter wraps the chunk holds its former samples followed by the new one.
\<close>

theorem add_sample_optimized:
  "(IsChunkFull c \<longrightarrow>
      TurboGorilla_AddSampleOptimized c ts v = Inr (CR_END, c)) \<and>
   (\<not> IsChunkFull c \<and> count c < length (buffer_ts c) \<and> count c < length (buffer_values c) \<longrightarrow>
      (\<exists>c'. TurboGorilla_AddSampleOptimized c ts v = Inr (CR_OK, c') \<and>
            buffer_ts c' = (buffer_ts c)[count c := ts] \<and>
            buffer_values c' = (buffer_values c)[count c := v] \<and>
            start_ts c' = (if num_samples c = 0 then ts else start_ts c) \<and>
            num_samples c' = num_samples c + 1 \<and>
            size_b c' = size_b c \<and> buffer_in_use c' = buffer_in_use c \<and>
            (num_samples c \<noteq> - 1 \<longrightarrow> samples c' = samples c @ [(ts, v)])))"
proof (intro conjI impI)
  assume "IsChunkFull c"
  then show "TurboGorilla_AddSampleOptimized c ts v = Inr (CR_END, c)"
    by (simp add: TurboGorilla_AddSampleOptimized_def)
next
  assume h: "\<not> IsChunkFull c \<and> count c < length (buffer_ts c) \<and>
             count c < length (buffer_values c)"
  define c' where "c' = c\<lparr>start_ts := (if num_samples c = 0 then ts else start_ts c),
                           buffer_ts := (buffer_ts c)[count c := ts],
                           buffer_values := (buffer_values c)[count c := v],
                           num_samples := num_samples c + 1\<rparr>"
  have run: "TurboGorilla_AddSampleOptimized c ts v = Inr (CR_OK, c')"
    using h
    by (auto simp add: TurboGorilla_AddSampleOptimized_def write_cell_def count_def c'_def
        Let_def)
  have snoc: "samples c' = samples c @ [(ts, v)]" if "num_samples c \<noteq> - 1"
  proof (rule samples_snoc)
    show "count c' = Suc (count c)"
      using that by (simp add: c'_def count_def unat_succ32)
  qed (use h in \<open>simp_all add: c'_def\<close>)
  show "\<exists>c'. TurboGorilla_AddSampleOptimized c ts v = Inr (CR_OK, c') \<and>
            buffer_ts c' = (buffer_ts c)[count c := ts] \<and>
            buffer_values c' = (buffer_values c)[count c := v] \<and>
            start_ts c' = (if num_samples c = 0 then ts else start_ts c) \<and>
            num_samples c' = num_samples c + 1 \<and>
            size_b c' = size_b c \<and> buffer_in_use c' = buffer_in_use c \<and>
            (num_samples c \<noteq> - 1 \<longrightarrow> samples c' = samples c @ [(ts, v)])"
    using run snoc by (intro exI [of _ c']) (simp add: c'_def)
qed

theorem add_sample_optimized_witness:
  "TurboGorilla_AddSampleOptimized
     \<lparr>start_ts = 100, num_samples = 2, size_b = 32, buffer_in_use = True,
      buffer_ts = [100, 200], buffer_values = [1, 2]\<rparr> 300 3 =
   Inr (CR_END, \<lparr>start_ts = 100, num_samples = 2, size_b = 32, buffer_in_use = True,
      buffer_ts = [100, 200], buffer_values = [1, 2]\<rparr>) \<and>
   (\<exists>c'. TurboGorilla_AddSampleOptimized
     \<lparr>start_ts = 100, num_samples = 2, size_b = 48, buffer_in_use = True,
      buffer_ts = [100, 200, 0], buffer_values = [1, 2, 0]\<rparr> 50 3 = Inr (CR_OK, c') \<and>
     samples c' = [(100, 1), (200, 2), (50, 3)] \<and> num_samples c' = 3 \<and> start_ts c' = 100)"
  using add_sample_optimized
    [of "\<lparr>start_ts = 100, num_samples = 2, size_b = 32, buffer_in_use = True,
          buffer_ts = [100, 200], buffer_values = [1, 2]\<rparr>" 300 3]
    add_sample_optimized
    [of "\<lparr>start_ts = 100, num_samples = 2, size_b = 48, buffer_in_use = True,
          buffer_ts = [100, 200, 0], buffer_values = [1, 2, 0]\<rparr>" 50 3]
  by (auto simp add: IsChunkFull_def SAMPLE_SIZE_def count_def samples_def timestamps_def
      values_of_def)

section \<open>Upsert\<close>

text \<open>
  C1. The upsert of a sample with timestamp \<open>ts\<close> and value \<open>v\<close> into a chunk that satisfies
  the data model (buffers allocated for the capacity, samples within the capacity,
  timestamps sorted) and has fewer than \<open>2^31\<close> samples. Let \<open>pos\<close> be the number of stored
  timestamps strictly smaller than \<open>ts\<close>.

  If \<open>ts\<close> is stored, it is stored at \<open>pos\<close> and the resolver decides, from the policy, the
  stored value and \<open>v\<close>: when it reports a conflict the upsert returns \<open>CR_ERR\<close>, the chunk
  is the one given and 0 samples are reported; when it succeeds the upsert returns
  \<open>CR_OK\<close>, the chunk differs from the one given in the value cell \<open>pos\<close> only, which holds
  the resolved value, and 0 samples are reported.

  If \<open>ts\<close> is not stored, the upsert returns \<open>CR_OK\<close> and reports 1 sample: the samples are
  the former ones before \<open>pos\<close>, the new sample, and the former ones from \<open>pos\<close> on;
  \<open>num_samples\<close> is incremented; the byte capacity grows by \<open>SAMPLE_SIZE\<close>, one sample, if
  the chunk was full and is unchanged otherwise; \<open>start_ts\<close> is \<open>ts\<close> if \<open>pos = 0\<close> and is
  unchanged otherwise.
\<close>

theorem upsert_sample:
  fixes uCtx :: UpsertCtx
    and handleDuplicateSample :: "'p \<Rightarrow> double \<Rightarrow> double \<Rightarrow> ChunkResult \<times> double"
  defines "c \<equiv> inChunk uCtx" and "ts \<equiv> timestamp (sample uCtx)" and "v \<equiv> value_s (sample uCtx)"
  defines "pos \<equiv> length (filter (\<lambda>t. t < ts) (timestamps c))"
  assumes bh: "buffers_hold c" and ca: "capacity_allocated c" and wc0: "within_capacity c"
    and srt: "sorted (timestamps c)" and small: "count c < 2147483648"
  shows
    "(ts \<in> set (timestamps c) \<longrightarrow>
        timestamps c ! pos = ts \<and>
        (\<forall>cr v'. handleDuplicateSample pol (values_of c ! pos) v = (cr, v') \<longrightarrow>
           (cr \<noteq> CR_OK \<longrightarrow>
              TurboGorilla_UpsertSample handleDuplicateSample mem uCtx pol =
                Inr (CR_ERR, uCtx\<lparr>sample := (sample uCtx)\<lparr>value_s := v'\<rparr>\<rparr>, 0)) \<and>
           (cr = CR_OK \<longrightarrow>
              TurboGorilla_UpsertSample handleDuplicateSample mem uCtx pol =
                Inr (CR_OK,
                     uCtx\<lparr>sample := (sample uCtx)\<lparr>value_s := v'\<rparr>,
                           inChunk := c\<lparr>buffer_values := (buffer_values c)[pos := v']\<rparr>\<rparr>,
                     0)))) \<and>
     (ts \<notin> set (timestamps c) \<longrightarrow>
        (\<exists>c'. TurboGorilla_UpsertSample handleDuplicateSample mem uCtx pol =
                Inr (CR_OK, uCtx\<lparr>inChunk := c'\<rparr>, 1) \<and>
              samples c' = take pos (samples c) @ [(ts, v)] @ drop pos (samples c) \<and>
              num_samples c' = num_samples c + 1 \<and> count c' = count c + 1 \<and>
              size_b c' = (if IsChunkFull c then size_b c + SAMPLE_SIZE else size_b c) \<and>
              capacity c' = (if IsChunkFull c then capacity c + 1 else capacity c) \<and>
              start_ts c' = (if pos = 0 then ts else start_ts c) \<and>
              buffer_in_use c' = buffer_in_use c))"
proof (intro conjI impI allI)
  assume m: "ts \<in> set (timestamps c)"
  show "timestamps c ! pos = ts"
    unfolding pos_def ts_def c_def
    using bh [unfolded c_def] srt [unfolded c_def] small [unfolded c_def] m [unfolded ts_def c_def]
    by (rule UpsertSample_found(1))
next
  fix cr v'
  assume m: "ts \<in> set (timestamps c)"
    and r: "handleDuplicateSample pol (values_of c ! pos) v = (cr, v')"
  have run: "TurboGorilla_UpsertSample handleDuplicateSample mem uCtx pol =
          (case handleDuplicateSample pol (values_of c ! pos) v of
             (cr, v') \<Rightarrow>
               if cr \<noteq> CR_OK
               then Inr (CR_ERR, uCtx\<lparr>sample := (sample uCtx)\<lparr>value_s := v'\<rparr>\<rparr>, 0)
               else Inr (CR_OK,
                         uCtx\<lparr>sample := (sample uCtx)\<lparr>value_s := v'\<rparr>,
                               inChunk := c\<lparr>buffer_values := (buffer_values c)[pos := v']\<rparr>\<rparr>,
                         0))"
    unfolding pos_def ts_def c_def v_def
    using bh [unfolded c_def] srt [unfolded c_def] small [unfolded c_def] m [unfolded ts_def c_def]
    by (rule UpsertSample_found(3))
  show "TurboGorilla_UpsertSample handleDuplicateSample mem uCtx pol =
          Inr (CR_ERR, uCtx\<lparr>sample := (sample uCtx)\<lparr>value_s := v'\<rparr>\<rparr>, 0)"
    if "cr \<noteq> CR_OK"
    using that by (simp add: run r)
  show "TurboGorilla_UpsertSample handleDuplicateSample mem uCtx pol =
          Inr (CR_OK,
               uCtx\<lparr>sample := (sample uCtx)\<lparr>value_s := v'\<rparr>,
                     inChunk := c\<lparr>buffer_values := (buffer_values c)[pos := v']\<rparr>\<rparr>,
               0)"
    if "cr = CR_OK"
    using that by (simp add: run r)
next
  assume a: "ts \<notin> set (timestamps c)"
  have wc: "count c \<le> capacity c"
    using wc0 by (simp add: within_capacity_iff)
  obtain c' where run: "TurboGorilla_UpsertSample handleDuplicateSample mem uCtx pol =
      Inr (CR_OK, uCtx\<lparr>inChunk := c'\<rparr>, 1)"
    and r: "timestamps c' = take pos (timestamps c) @ [ts] @ drop pos (timestamps c)"
    "values_of c' = take pos (values_of c) @ [v] @ drop pos (values_of c)"
    "num_samples c' = num_samples c + 1" "count c' = Suc (count c)"
    "size_b c' = (if IsChunkFull c then size_b c + SAMPLE_SIZE else size_b c)"
    "capacity c' = (if IsChunkFull c then Suc (capacity c) else capacity c)"
    "start_ts c' = (if pos = 0 then ts else start_ts c)" "buffer_in_use c' = buffer_in_use c"
    "capacity_allocated c'"
    unfolding pos_def ts_def c_def v_def
    by (rule UpsertSample_absent [of uCtx handleDuplicateSample mem pol,
        OF bh [unfolded c_def] ca [unfolded c_def] wc [unfolded c_def] small [unfolded c_def]
          a [unfolded ts_def c_def]])
  have len: "length (timestamps c) = length (values_of c)"
    using bh by (simp add: timestamps_def values_of_def buffers_hold_def)
  have smp: "samples c' = take pos (samples c) @ [(ts, v)] @ drop pos (samples c)"
    unfolding samples_def r(1,2) using len by (rule zip_inserted)
  show "\<exists>c'. TurboGorilla_UpsertSample handleDuplicateSample mem uCtx pol =
                Inr (CR_OK, uCtx\<lparr>inChunk := c'\<rparr>, 1) \<and>
              samples c' = take pos (samples c) @ [(ts, v)] @ drop pos (samples c) \<and>
              num_samples c' = num_samples c + 1 \<and> count c' = count c + 1 \<and>
              size_b c' = (if IsChunkFull c then size_b c + SAMPLE_SIZE else size_b c) \<and>
              capacity c' = (if IsChunkFull c then capacity c + 1 else capacity c) \<and>
              start_ts c' = (if pos = 0 then ts else start_ts c) \<and>
              buffer_in_use c' = buffer_in_use c"
    using run smp r(3-8) by (intro exI [of _ c']) simp
qed


theorem upsert_sample_witness:
  "(\<exists>c'. TurboGorilla_UpsertSample example_resolver (filled 0)
           \<lparr>inChunk = \<lparr>start_ts = 100, num_samples = 3, size_b = 64, buffer_in_use = True,
                       buffer_ts = [100, 200, 300, 0], buffer_values = [1, 2, 3, 0]\<rparr>,
            sample = \<lparr>timestamp = 150, value_s = 9\<rparr>\<rparr> DP_LAST =
          Inr (CR_OK, \<lparr>inChunk = c', sample = \<lparr>timestamp = 150, value_s = 9\<rparr>\<rparr>, 1) \<and>
        samples c' = [(100, 1), (150, 9), (200, 2), (300, 3)] \<and> num_samples c' = 4 \<and>
        size_b c' = 64 \<and> start_ts c' = 100) \<and>
   (\<exists>c'. TurboGorilla_UpsertSample example_resolver (filled 0)
           \<lparr>inChunk = \<lparr>start_ts = 100, num_samples = 2, size_b = 32, buffer_in_use = True,
                       buffer_ts = [100, 200], buffer_values = [1, 2]\<rparr>,
            sample = \<lparr>timestamp = 50, value_s = 5\<rparr>\<rparr> DP_LAST =
          Inr (CR_OK, \<lparr>inChunk = c', sample = \<lparr>timestamp = 50, value_s = 5\<rparr>\<rparr>, 1) \<and>
        samples c' = [(50, 5), (100, 1), (200, 2)] \<and> num_samples c' = 3 \<and>
        size_b c' = 48 \<and> start_ts c' = 50) \<and>
   TurboGorilla_UpsertSample example_resolver (filled 0)
       \<lparr>inChunk = \<lparr>start_ts = 100, num_samples = 3, size_b = 64, buffer_in_use = True,
                   buffer_ts = [100, 200, 300, 0], buffer_values = [1, 2, 3, 0]\<rparr>,
        sample = \<lparr>timestamp = 200, value_s = 7\<rparr>\<rparr> DP_LAST =
     Inr (CR_OK,
          \<lparr>inChunk = \<lparr>start_ts = 100, num_samples = 3, size_b = 64, buffer_in_use = True,
                      buffer_ts = [100, 200, 300, 0], buffer_values = [1, 7, 3, 0]\<rparr>,
           sample = \<lparr>timestamp = 200, value_s = 7\<rparr>\<rparr>, 0) \<and>
   TurboGorilla_UpsertSample example_resolver (filled 0)
       \<lparr>inChunk = \<lparr>start_ts = 100, num_samples = 3, size_b = 64, buffer_in_use = True,
                   buffer_ts = [100, 200, 300, 0], buffer_values = [1, 2, 3, 0]\<rparr>,
        sample = \<lparr>timestamp = 200, value_s = 7\<rparr>\<rparr> DP_BLOCK =
     Inr (CR_ERR,
          \<lparr>inChunk = \<lparr>start_ts = 100, num_samples = 3, size_b = 64, buffer_in_use = True,
                      buffer_ts = [100, 200, 300, 0], buffer_values = [1, 2, 3, 0]\<rparr>,
           sample = \<lparr>timestamp = 200, value_s = 7\<rparr>\<rparr>, 0)"
proof -
  define c where "c = \<lparr>start_ts = 100, num_samples = 3, size_b = 64, buffer_in_use = True,
                       buffer_ts = [100, 200, 300, 0], buffer_values = [1, 2, 3, 0]\<rparr>"
  define f where "f = \<lparr>start_ts = 100, num_samples = 2, size_b = 32, buffer_in_use = True,
                       buffer_ts = [100, 200], buffer_values = [1, 2]\<rparr>"
  have hc: "buffers_hold c" "capacity_allocated c" "within_capacity c" "sorted (timestamps c)"
    "count c < 2147483648"
    by (simp_all add: c_def buffers_hold_def capacity_allocated_def within_capacity_def
        capacity_def timestamps_def count_def SAMPLE_SIZE_def)
  have hf: "buffers_hold f" "capacity_allocated f" "within_capacity f" "sorted (timestamps f)"
    "count f < 2147483648"
    by (simp_all add: f_def buffers_hold_def capacity_allocated_def within_capacity_def
        capacity_def timestamps_def count_def SAMPLE_SIZE_def)
  have tc: "timestamps c = [100, 200, 300]" "values_of c = [1, 2, 3]"
    "samples c = [(100, 1), (200, 2), (300, 3)]" "\<not> IsChunkFull c"
    by (simp_all add: c_def timestamps_def values_of_def samples_def count_def IsChunkFull_def
        SAMPLE_SIZE_def)
  have tf: "timestamps f = [100, 200]" "samples f = [(100, 1), (200, 2)]" "IsChunkFull f"
    by (simp_all add: f_def timestamps_def values_of_def samples_def count_def IsChunkFull_def
        SAMPLE_SIZE_def)
  have a: "\<exists>c'. TurboGorilla_UpsertSample example_resolver (filled 0)
           \<lparr>inChunk = c, sample = \<lparr>timestamp = 150, value_s = 9\<rparr>\<rparr> DP_LAST =
          Inr (CR_OK, \<lparr>inChunk = c', sample = \<lparr>timestamp = 150, value_s = 9\<rparr>\<rparr>, 1) \<and>
        samples c' = [(100, 1), (150, 9), (200, 2), (300, 3)] \<and> num_samples c' = 4 \<and>
        size_b c' = 64 \<and> start_ts c' = 100"
    using upsert_sample [where uCtx = "\<lparr>inChunk = c, sample = \<lparr>timestamp = 150, value_s = 9\<rparr>\<rparr>"
        and handleDuplicateSample = example_resolver and mem = "filled 0" and pol = DP_LAST]
      hc
    by (simp add: tc) (auto simp add: c_def)
  have b: "\<exists>c'. TurboGorilla_UpsertSample example_resolver (filled 0)
           \<lparr>inChunk = f, sample = \<lparr>timestamp = 50, value_s = 5\<rparr>\<rparr> DP_LAST =
          Inr (CR_OK, \<lparr>inChunk = c', sample = \<lparr>timestamp = 50, value_s = 5\<rparr>\<rparr>, 1) \<and>
        samples c' = [(50, 5), (100, 1), (200, 2)] \<and> num_samples c' = 3 \<and>
        size_b c' = 48 \<and> start_ts c' = 50"
    using upsert_sample [where uCtx = "\<lparr>inChunk = f, sample = \<lparr>timestamp = 50, value_s = 5\<rparr>\<rparr>"
        and handleDuplicateSample = example_resolver and mem = "filled 0" and pol = DP_LAST]
      hf
    by (simp add: tf) (auto simp add: f_def SAMPLE_SIZE_def)
  have d: "TurboGorilla_UpsertSample example_resolver (filled 0)
       \<lparr>inChunk = c, sample = \<lparr>timestamp = 200, value_s = 7\<rparr>\<rparr> DP_LAST =
     Inr (CR_OK, \<lparr>inChunk = c\<lparr>buffer_values := [1, 7, 3, 0]\<rparr>,
           sample = \<lparr>timestamp = 200, value_s = 7\<rparr>\<rparr>, 0)"
    using upsert_sample [where uCtx = "\<lparr>inChunk = c, sample = \<lparr>timestamp = 200, value_s = 7\<rparr>\<rparr>"
        and handleDuplicateSample = example_resolver and mem = "filled 0" and pol = DP_LAST]
      hc
    by (simp add: tc) (simp add: c_def)
  have e: "TurboGorilla_UpsertSample example_resolver (filled 0)
       \<lparr>inChunk = c, sample = \<lparr>timestamp = 200, value_s = 7\<rparr>\<rparr> DP_BLOCK =
     Inr (CR_ERR, \<lparr>inChunk = c, sample = \<lparr>timestamp = 200, value_s = 7\<rparr>\<rparr>, 0)"
    using upsert_sample [where uCtx = "\<lparr>inChunk = c, sample = \<lparr>timestamp = 200, value_s = 7\<rparr>\<rparr>"
        and handleDuplicateSample = example_resolver and mem = "filled 0" and pol = DP_BLOCK]
      hc
    by (simp add: tc)
  show ?thesis
    using a b d e unfolding c_def f_def by simp
qed

section \<open>Range delete\<close>

text \<open>
  C2. On a chunk whose buffers hold its samples, whose samples fit its capacity and whose
  capacity is at least one sample, the range delete with the inclusive bounds
  \<open>[startTs, endTs]\<close> returns; the chunk it leaves holds exactly the samples whose
  timestamp \<open>t\<close> does not satisfy \<open>startTs \<le> t \<le> endTs\<close>, in their former order;
  \<open>num_samples\<close> is their number; \<open>start_ts\<close> is the first cell of the new timestamp
  buffer, which is the first surviving timestamp when one survives; and the value
  returned is the number of samples before minus the number after.
\<close>

theorem del_range:
  assumes "buffers_hold c" and "within_capacity c" and "0 < capacity c"
  shows "\<exists>c' d. TurboGorilla_DelRange mem c startTs endTs = Inr (c', d) \<and>
           samples c' = filter (\<lambda>p. \<not> (startTs \<le> fst p \<and> fst p \<le> endTs)) (samples c) \<and>
           count c' = length (samples c') \<and>
           start_ts c' = buffer_ts c' ! 0 \<and>
           (samples c' \<noteq> [] \<longrightarrow> start_ts c' = fst (hd (samples c'))) \<and>
           unat d = count c - count c' \<and> count c' \<le> count c"
proof -
  from assms(2) have wc: "count c \<le> capacity c"
    by (simp add: within_capacity_iff)
  obtain c' d where r: "TurboGorilla_DelRange mem c startTs endTs = Inr (c', d)"
    and s: "samples c' = survivors startTs endTs (samples c)"
    and n: "count c' = length (survivors startTs endTs (samples c))"
    and f: "start_ts c' = buffer_ts c' ! 0"
    and u: "unat d = count c - count c'"
    and l: "length (buffer_ts c') = capacity c" "length (buffer_values c') = capacity c"
    using DelRange_facts [OF assms(1) wc assms(3), of mem startTs endTs] by metis
  have le: "count c' \<le> count c"
    using length_survivors_le [of startTs endTs "samples c"] assms(1)
    by (simp add: n length_samples)
  have bh': "buffers_hold c'"
    using le wc l by (simp add: buffers_hold_def)
  have hd: "start_ts c' = fst (hd (samples c'))" if "samples c' \<noteq> []"
  proof -
    from that have "0 < count c'" using s n by simp
    moreover have "map fst (samples c') = timestamps c'"
      using bh' by (rule map_fst_samples)
    ultimately have "fst (hd (samples c')) = buffer_ts c' ! 0"
      using that bh'
      by (metis (no_types) hd_conv_nth hd_map length_greater_0_conv length_map length_samples
          nth_take timestamps_def)
    then show ?thesis
      using f by simp
  qed
  show ?thesis
    using r s n f u le hd
    by (intro exI [of _ c'] exI [of _ d]) (simp add: survivors_def in_range_def)
qed


theorem del_range_witness:
  "\<exists>c' d. TurboGorilla_DelRange (filled 0)
     \<lparr>start_ts = 100, num_samples = 4, size_b = 64, buffer_in_use = True,
      buffer_ts = [100, 150, 200, 300], buffer_values = [1, 9, 2, 3]\<rparr> 150 250 = Inr (c', d) \<and>
     samples c' = [(100, 1), (300, 3)] \<and> count c' = 2 \<and> start_ts c' = 100 \<and> unat d = 2"
proof -
  define c where "c = \<lparr>start_ts = 100, num_samples = 4, size_b = 64, buffer_in_use = True,
      buffer_ts = [100, 150, 200, 300], buffer_values = [1, 9, 2, 3]\<rparr>"
  have h1: "buffers_hold c"
    by (simp add: c_def buffers_hold_def count_def)
  have h2: "within_capacity c"
    by (simp add: c_def within_capacity_def count_def SAMPLE_SIZE_def)
  have h3: "0 < capacity c"
    by (simp add: c_def capacity_def SAMPLE_SIZE_def)
  have s: "samples c = [(100, 1), (150, 9), (200, 2), (300, 3)]"
    by (simp add: c_def samples_def timestamps_def values_of_def count_def)
  have n: "count c = 4"
    by (simp add: c_def count_def)
  obtain c' d where r: "TurboGorilla_DelRange (filled 0) c 150 250 = Inr (c', d)"
    and p: "samples c' = filter (\<lambda>p. \<not> (150 \<le> fst p \<and> fst p \<le> 250)) (samples c)"
      "count c' = length (samples c')"
      "samples c' \<noteq> [] \<longrightarrow> start_ts c' = fst (hd (samples c'))"
      "unat d = count c - count c'"
    using del_range [OF h1 h2 h3, of "filled 0" 150 250] by blast
  have s': "samples c' = [(100, 1), (300, 3)]"
    unfolding p(1) s by simp
  show ?thesis
    using r p(2-4) s' n unfolding c_def by (intro exI [of _ c'] exI [of _ d]) simp
qed

section \<open>Range delete that leaves no sample\<close>

text \<open>
  C3. The range delete has no branch for the chunk it leaves empty: it reads the first cell
  of the new timestamp buffer in every case. On the empty chunk of capacity 0 (as the
  split of a one-sample chunk creates it) the new buffer has no cell and the read is out
  of bounds. On a one-sample chunk of capacity 1 whose sample is deleted, the read is in
  bounds but of a cell that was never written, and \<open>start_ts\<close> becomes whatever the
  allocation held (here the pattern 43690), neither its former value nor a sentinel.
\<close>

theorem del_range_all_removed:
  "TurboGorilla_DelRange (filled 43690) (TurboGorilla_NewChunk (filled 43690) 0) 0 0
     = Inl OutOfBounds \<and>
   TurboGorilla_DelRange (filled 43690)
     \<lparr>start_ts = 5, num_samples = 1, size_b = 16, buffer_in_use = True,
      buffer_ts = [5], buffer_values = [1]\<rparr> 5 5 =
   Inr (\<lparr>start_ts = 43690, num_samples = 0, size_b = 16, buffer_in_use = True,
        buffer_ts = [43690], buffer_values = [43690]\<rparr>, 1)"
  by code_simp

section \<open>Split\<close>

text \<open>
  C7. Splitting a chunk whose buffers hold its \<open>n\<close> samples returns a left chunk with the
  first \<open>n - n div 2\<close> samples and a right chunk with the last \<open>n div 2\<close> samples, in
  order: the two counts add up to \<open>n\<close>, and the samples of the left followed by those of
  the right are the samples of the original. When the original timestamps are sorted,
  every timestamp of the left is at most every timestamp of the right. A forward scan
  with the chunk iterator (for fewer than \<open>2^31\<close> samples, the range of its \<^verbatim>\<open>int\<close>
  index) over the left and then over the right yields what a forward scan over the
  original yields.
\<close>

theorem split_chunk:
  assumes "buffers_hold c"
  shows "\<exists>l r. TurboGorilla_SplitChunk mem_new mem_re c = Inr (l, r) \<and>
           count r = count c div 2 \<and> count l = count c - count c div 2 \<and>
           count l + count r = count c \<and>
           samples l = take (count l) (samples c) \<and> samples r = drop (count l) (samples c) \<and>
           samples l @ samples r = samples c \<and>
           (sorted (timestamps c) \<longrightarrow>
              (\<forall>x \<in> set (timestamps l). \<forall>y \<in> set (timestamps r). x \<le> y)) \<and>
           (count c < 2147483648 \<and> opts AND rev_bit = 0 \<longrightarrow>
              (\<exists>xs ys.
                 iterate_forward (TurboGorilla_NewChunkIterator rev_bit l opts) smp = Inr xs \<and>
                 iterate_forward (TurboGorilla_NewChunkIterator rev_bit r opts) smp = Inr ys \<and>
                 iterate_forward (TurboGorilla_NewChunkIterator rev_bit c opts) smp
                   = Inr (xs @ ys)))"
proof -
  obtain l r where run: "TurboGorilla_SplitChunk mem_new mem_re c = Inr (l, r)"
    and cr: "count r = count c div 2" and cl: "count l = count c - count c div 2"
    and sl: "samples l = take (count l) (samples c)"
    and sr: "samples r = drop (count l) (samples c)"
    and len: "length (buffer_ts l) = count l" "length (buffer_values l) = count l"
      "length (buffer_ts r) = count r" "length (buffer_values r) = count r"
    using SplitChunk_facts [OF assms, of mem_new mem_re] by metis
  have bl: "buffers_hold l" and br: "buffers_hold r"
    using len by (simp_all add: buffers_hold_def)
  have tl: "timestamps l = take (count l) (timestamps c)"
    using map_fst_samples [OF bl] map_fst_samples [OF assms] by (metis sl take_map)
  have tr: "timestamps r = drop (count l) (timestamps c)"
    using map_fst_samples [OF br] map_fst_samples [OF assms] by (metis sr drop_map)
  have ord: "\<forall>x \<in> set (timestamps l). \<forall>y \<in> set (timestamps r). x \<le> y"
    if "sorted (timestamps c)"
  proof -
    have "sorted (timestamps l @ timestamps r)"
      using that by (simp add: tl tr)
    then show ?thesis
      by (simp add: sorted_append)
  qed
  have it: "\<exists>xs ys.
       iterate_forward (TurboGorilla_NewChunkIterator rev_bit l opts) smp = Inr xs \<and>
       iterate_forward (TurboGorilla_NewChunkIterator rev_bit r opts) smp = Inr ys \<and>
       iterate_forward (TurboGorilla_NewChunkIterator rev_bit c opts) smp = Inr (xs @ ys)"
    if h: "count c < 2147483648 \<and> opts AND rev_bit = 0"
  proof (intro exI conjI)
    have small: "count l < 2147483648" "count r < 2147483648"
      using h cl cr by arith+
    show "iterate_forward (TurboGorilla_NewChunkIterator rev_bit l opts) smp = Inr (samples l)"
      using bl h small by (intro iterate_forward_samples) simp_all
    show "iterate_forward (TurboGorilla_NewChunkIterator rev_bit r opts) smp = Inr (samples r)"
      using br h small by (intro iterate_forward_samples) simp_all
    show "iterate_forward (TurboGorilla_NewChunkIterator rev_bit c opts) smp =
            Inr (samples l @ samples r)"
      using assms h by (simp add: sl sr iterate_forward_samples)
  qed
  show ?thesis
    using run cr cl sl sr ord it
    by (intro exI [of _ l] exI [of _ r] conjI) simp_all
qed


theorem split_chunk_witness:
  "\<exists>l r. TurboGorilla_SplitChunk (filled 0) (filled 0)
       \<lparr>start_ts = 100, num_samples = 5, size_b = 80, buffer_in_use = True,
        buffer_ts = [100, 200, 300, 400, 500], buffer_values = [1, 2, 3, 4, 5]\<rparr> = Inr (l, r) \<and>
     samples l = [(100, 1), (200, 2), (300, 3)] \<and> samples r = [(400, 4), (500, 5)] \<and>
     count l = 3 \<and> count r = 2 \<and>
     timestamps l = [100, 200, 300] \<and> timestamps r = [400, 500] \<and>
     iterate_forward (TurboGorilla_NewChunkIterator 1 l 0) \<lparr>timestamp = 0, value_s = 0\<rparr>
       = Inr [(100, 1), (200, 2), (300, 3)] \<and>
     iterate_forward (TurboGorilla_NewChunkIterator 1 r 0) \<lparr>timestamp = 0, value_s = 0\<rparr>
       = Inr [(400, 4), (500, 5)] \<and>
     iterate_forward (TurboGorilla_NewChunkIterator 1
       \<lparr>start_ts = 100, num_samples = 5, size_b = 80, buffer_in_use = True,
        buffer_ts = [100, 200, 300, 400, 500], buffer_values = [1, 2, 3, 4, 5]\<rparr> 0)
       \<lparr>timestamp = 0, value_s = 0\<rparr>
       = Inr [(100, 1), (200, 2), (300, 3), (400, 4), (500, 5)]"
proof -
  define c where "c = \<lparr>start_ts = 100, num_samples = 5, size_b = 80, buffer_in_use = True,
        buffer_ts = [100, 200, 300, 400, 500], buffer_values = [1, 2, 3, 4, 5]\<rparr>"
  define smp where "smp = \<lparr>timestamp = 0, value_s = 0\<rparr>"
  have h: "buffers_hold c"
    by (simp add: c_def buffers_hold_def count_def)
  have n: "count c = 5"
    by (simp add: c_def count_def)
  have s: "samples c = [(100, 1), (200, 2), (300, 3), (400, 4), (500, 5)]"
    by (simp add: c_def samples_def timestamps_def values_of_def count_def)
  have t: "timestamps c = [100, 200, 300, 400, 500]"
    by (simp add: c_def timestamps_def count_def)
  have srt: "sorted (timestamps c)"
    by (simp add: t)
  have fw: "count c < 2147483648 \<and> (0 :: 32 word) AND 1 = 0"
    by (simp add: n)
  obtain l r xs ys where run: "TurboGorilla_SplitChunk (filled 0) (filled 0) c = Inr (l, r)"
    and p: "count r = count c div 2" "count l = count c - count c div 2"
      "samples l = take (count l) (samples c)" "samples r = drop (count l) (samples c)"
    and it: "iterate_forward (TurboGorilla_NewChunkIterator 1 l 0) smp = Inr xs"
      "iterate_forward (TurboGorilla_NewChunkIterator 1 r 0) smp = Inr ys"
      "iterate_forward (TurboGorilla_NewChunkIterator 1 c 0) smp = Inr (xs @ ys)"
    and o: "\<forall>x \<in> set (timestamps l). \<forall>y \<in> set (timestamps r). x \<le> y"
    using split_chunk [OF h, of "filled 0" "filled 0" 0 1 smp] srt fw by blast
  have cl: "count l = 3" and cr: "count r = 2"
    using p(1,2) n by simp_all
  have sl: "samples l = [(100, 1), (200, 2), (300, 3)]"
    and sr: "samples r = [(400, 4), (500, 5)]"
    using p(3,4) by (simp_all add: cl s)
  have bl: "buffers_hold l" "buffers_hold r"
    using sl sr cl cr
    by (auto simp add: buffers_hold_def samples_def timestamps_def values_of_def
        dest!: arg_cong [where f = length])
  have tl: "timestamps l = [100, 200, 300]" "timestamps r = [400, 500]"
    using map_fst_samples [OF bl(1)] map_fst_samples [OF bl(2)] sl sr by simp_all
  have il: "iterate_forward (TurboGorilla_NewChunkIterator 1 l 0) smp = Inr (samples l)"
    using bl(1) cl by (intro iterate_forward_samples) simp_all
  have ir: "iterate_forward (TurboGorilla_NewChunkIterator 1 r 0) smp = Inr (samples r)"
    using bl(2) cr by (intro iterate_forward_samples) simp_all
  have "xs = samples l" "ys = samples r"
    using it(1,2) il ir by simp_all
  then have ic: "iterate_forward (TurboGorilla_NewChunkIterator 1 c 0) smp
      = Inr [(100, 1), (200, 2), (300, 3), (400, 4), (500, 5)]"
    using it(3) sl sr by simp
  show ?thesis
    using run sl sr cl cr tl il ir ic unfolding c_def smp_def
    by (intro exI [of _ l] exI [of _ r]) simp
qed

section \<open>Shrinking\<close>

text \<open>
  C4, as the claim states it, fails for the range delete: deleting two of four
  samples from a chunk of 64 bytes leaves the byte capacity at 64 and both buffers at
  four cells for two samples.
\<close>

theorem del_range_keeps_slack:
  "TurboGorilla_DelRange (filled 0)
     \<lparr>start_ts = 100, num_samples = 4, size_b = 64, buffer_in_use = True,
      buffer_ts = [100, 150, 200, 300], buffer_values = [1, 9, 2, 3]\<rparr> 150 250 =
   Inr (\<lparr>start_ts = 100, num_samples = 2, size_b = 64, buffer_in_use = True,
        buffer_ts = [100, 300, 0, 0], buffer_values = [1, 3, 0, 0]\<rparr>, 2) \<and>
   \<not> exact_fit \<lparr>start_ts = 100, num_samples = 2, size_b = 64, buffer_in_use = True,
        buffer_ts = [100, 300, 0, 0], buffer_values = [1, 3, 0, 0]\<rparr>"
proof
  show "TurboGorilla_DelRange (filled 0)
     \<lparr>start_ts = 100, num_samples = 4, size_b = 64, buffer_in_use = True,
      buffer_ts = [100, 150, 200, 300], buffer_values = [1, 9, 2, 3]\<rparr> 150 250 =
   Inr (\<lparr>start_ts = 100, num_samples = 2, size_b = 64, buffer_in_use = True,
        buffer_ts = [100, 300, 0, 0], buffer_values = [1, 3, 0, 0]\<rparr>, 2)"
    by code_simp
  show "\<not> exact_fit \<lparr>start_ts = 100, num_samples = 2, size_b = 64, buffer_in_use = True,
        buffer_ts = [100, 300, 0, 0], buffer_values = [1, 3, 0, 0]\<rparr>"
    by (simp add: exact_fit_def count_def)
qed

text \<open>
  C4, amended. After a split, both chunks have storage of exactly their size: the byte
  capacity is \<open>num_samples * SAMPLE_SIZE\<close> and both buffers have \<open>num_samples\<close> cells.
  After a range delete the storage is not shrunk: the byte capacity is unchanged and
  both new buffers are allocated for the whole capacity \<open>size / SAMPLE_SIZE\<close>.
\<close>

theorem shrink_policy:
  "(buffers_hold c \<longrightarrow>
      (\<exists>l r. TurboGorilla_SplitChunk mem_new mem_re c = Inr (l, r) \<and>
             exact_fit l \<and> exact_fit r)) \<and>
   (buffers_hold c \<and> within_capacity c \<and> 0 < capacity c \<longrightarrow>
      (\<exists>c' d. TurboGorilla_DelRange mem c startTs endTs = Inr (c', d) \<and>
              size_b c' = size_b c \<and>
              length (buffer_ts c') = capacity c \<and> length (buffer_values c') = capacity c))"
proof (intro conjI impI)
  assume bh: "buffers_hold c"
  obtain l r where "TurboGorilla_SplitChunk mem_new mem_re c = Inr (l, r)"
    "unat (size_b l) = count l * 16" "unat (size_b r) = count r * 16"
    "length (buffer_ts l) = count l" "length (buffer_values l) = count l"
    "length (buffer_ts r) = count r" "length (buffer_values r) = count r"
    using SplitChunk_facts [OF bh, of mem_new mem_re] by metis
  then show "\<exists>l r. TurboGorilla_SplitChunk mem_new mem_re c = Inr (l, r) \<and>
             exact_fit l \<and> exact_fit r"
    by (intro exI [of _ l] exI [of _ r]) (simp add: exact_fit_def SAMPLE_SIZE_def)
next
  assume h: "buffers_hold c \<and> within_capacity c \<and> 0 < capacity c"
  then have wc: "count c \<le> capacity c"
    by (simp add: within_capacity_iff)
  obtain c' d where "TurboGorilla_DelRange mem c startTs endTs = Inr (c', d)"
    "size_b c' = size_b c"
    "length (buffer_ts c') = capacity c" "length (buffer_values c') = capacity c"
    using h DelRange_facts [OF _ wc, of mem startTs endTs] by metis
  then show "\<exists>c' d. TurboGorilla_DelRange mem c startTs endTs = Inr (c', d) \<and>
              size_b c' = size_b c \<and>
              length (buffer_ts c') = capacity c \<and> length (buffer_values c') = capacity c"
    by (intro exI [of _ c'] exI [of _ d]) simp
qed

theorem shrink_policy_witness:
  "(\<exists>l r. TurboGorilla_SplitChunk (filled 0) (filled 0)
       \<lparr>start_ts = 100, num_samples = 3, size_b = 64, buffer_in_use = True,
        buffer_ts = [100, 200, 300, 0], buffer_values = [1, 2, 3, 0]\<rparr> = Inr (l, r) \<and>
          exact_fit l \<and> exact_fit r) \<and>
   (\<exists>c' d. TurboGorilla_DelRange (filled 0)
       \<lparr>start_ts = 100, num_samples = 3, size_b = 64, buffer_in_use = True,
        buffer_ts = [100, 200, 300, 0], buffer_values = [1, 2, 3, 0]\<rparr> 200 200 = Inr (c', d) \<and>
          size_b c' = 64 \<and> length (buffer_ts c') = 4 \<and> length (buffer_values c') = 4)"
proof -
  define c where "c = \<lparr>start_ts = 100, num_samples = 3, size_b = 64, buffer_in_use = True,
        buffer_ts = [100, 200, 300, 0], buffer_values = [1, 2, 3, 0]\<rparr>"
  have h: "buffers_hold c" "within_capacity c" "0 < capacity c"
    by (simp_all add: c_def buffers_hold_def within_capacity_def capacity_def count_def
        SAMPLE_SIZE_def)
  have cap: "capacity c = 4" "size_b c = 64"
    by (simp_all add: c_def capacity_def SAMPLE_SIZE_def)
  show ?thesis
    using shrink_policy [of c "filled 0" "filled 0" "filled 0" 200 200] h cap
    unfolding c_def by simp
qed

section \<open>Invariants\<close>

text \<open>
  C9. Let a chunk satisfy the data model: its timestamps are strictly ascending,
  \<open>num_samples * SAMPLE_SIZE \<le> size\<close>, \<open>start_ts\<close> is the first stored timestamp when there
  is one, and its buffers are allocated for the capacity. Then every mutating operation
  that returns success leaves a chunk that satisfies the data model again, so these
  three invariants hold after it: the append of a timestamp greater than all the stored
  ones, the upsert, the split (for both chunks it returns), and the range delete.
\<close>

theorem invariants_preserved:
  assumes "chunk_ok c"
  shows
    "((\<forall>t \<in> set (timestamps c). t < ts) \<and>
        TurboGorilla_AddSampleOptimized c ts v = Inr (CR_OK, a) \<longrightarrow> chunk_ok a) \<and>
     (inChunk uCtx = c \<and>
        TurboGorilla_UpsertSample handleDuplicateSample mem uCtx pol = Inr (CR_OK, uCtx', k)
        \<longrightarrow> chunk_ok (inChunk uCtx')) \<and>
     (TurboGorilla_SplitChunk mem_new mem_re c = Inr (l, r) \<longrightarrow> chunk_ok l \<and> chunk_ok r) \<and>
     (TurboGorilla_DelRange mem c startTs endTs = Inr (c', d) \<longrightarrow> chunk_ok c')"
proof (intro conjI impI)
  assume "(\<forall>t \<in> set (timestamps c). t < ts) \<and>
        TurboGorilla_AddSampleOptimized c ts v = Inr (CR_OK, a)"
  then show "chunk_ok a"
    using assms AddSampleOptimized_preserves by blast
next
  assume "inChunk uCtx = c \<and>
        TurboGorilla_UpsertSample handleDuplicateSample mem uCtx pol = Inr (CR_OK, uCtx', k)"
  then show "chunk_ok (inChunk uCtx')"
    using assms UpsertSample_preserves [of uCtx handleDuplicateSample mem pol uCtx' k] by simp
next
  assume s: "TurboGorilla_SplitChunk mem_new mem_re c = Inr (l, r)"
  show "chunk_ok l" "chunk_ok r"
    using SplitChunk_preserves [OF assms s] by simp_all
next
  assume "TurboGorilla_DelRange mem c startTs endTs = Inr (c', d)"
  with assms show "chunk_ok c'"
    by (rule DelRange_preserves)
qed


theorem invariants_preserved_witness:
  "TurboGorilla_AddSampleOptimized
     \<lparr>start_ts = 100, num_samples = 3, size_b = 64, buffer_in_use = True,
      buffer_ts = [100, 200, 300, 0], buffer_values = [1, 2, 3, 0]\<rparr> 400 4 =
     Inr (CR_OK, \<lparr>start_ts = 100, num_samples = 4, size_b = 64, buffer_in_use = True,
                  buffer_ts = [100, 200, 300, 400], buffer_values = [1, 2, 3, 4]\<rparr>) \<and>
   ts_ascending \<lparr>start_ts = 100, num_samples = 4, size_b = 64, buffer_in_use = True,
                  buffer_ts = [100, 200, 300, 400], buffer_values = [1, 2, 3, 4]\<rparr> \<and>
   within_capacity \<lparr>start_ts = 100, num_samples = 4, size_b = 64, buffer_in_use = True,
                  buffer_ts = [100, 200, 300, 400], buffer_values = [1, 2, 3, 4]\<rparr> \<and>
   (\<exists>cu. TurboGorilla_UpsertSample example_resolver (filled 0)
       \<lparr>inChunk = \<lparr>start_ts = 100, num_samples = 3, size_b = 64, buffer_in_use = True,
                   buffer_ts = [100, 200, 300, 0], buffer_values = [1, 2, 3, 0]\<rparr>,
        sample = \<lparr>timestamp = 50, value_s = 9\<rparr>\<rparr> DP_LAST =
       Inr (CR_OK, \<lparr>inChunk = cu, sample = \<lparr>timestamp = 50, value_s = 9\<rparr>\<rparr>, 1) \<and>
     timestamps cu = [50, 100, 200, 300] \<and> start_ts cu = 50 \<and>
     ts_ascending cu \<and> within_capacity cu) \<and>
   TurboGorilla_SplitChunk (filled 0) (filled 0)
     \<lparr>start_ts = 100, num_samples = 3, size_b = 64, buffer_in_use = True,
      buffer_ts = [100, 200, 300, 0], buffer_values = [1, 2, 3, 0]\<rparr> =
     Inr (\<lparr>start_ts = 100, num_samples = 2, size_b = 32, buffer_in_use = True,
           buffer_ts = [100, 200], buffer_values = [1, 2]\<rparr>,
          \<lparr>start_ts = 300, num_samples = 1, size_b = 16, buffer_in_use = True,
           buffer_ts = [300], buffer_values = [3]\<rparr>) \<and>
   ts_ascending \<lparr>start_ts = 100, num_samples = 2, size_b = 32, buffer_in_use = True,
           buffer_ts = [100, 200], buffer_values = [1, 2]\<rparr> \<and>
   within_capacity \<lparr>start_ts = 300, num_samples = 1, size_b = 16, buffer_in_use = True,
           buffer_ts = [300], buffer_values = [3]\<rparr> \<and>
   TurboGorilla_DelRange (filled 0)
     \<lparr>start_ts = 100, num_samples = 3, size_b = 64, buffer_in_use = True,
      buffer_ts = [100, 200, 300, 0], buffer_values = [1, 2, 3, 0]\<rparr> 0 150 =
     Inr (\<lparr>start_ts = 200, num_samples = 2, size_b = 64, buffer_in_use = True,
           buffer_ts = [200, 300, 0, 0], buffer_values = [2, 3, 0, 0]\<rparr>, 1) \<and>
   ts_ascending \<lparr>start_ts = 200, num_samples = 2, size_b = 64, buffer_in_use = True,
           buffer_ts = [200, 300, 0, 0], buffer_values = [2, 3, 0, 0]\<rparr> \<and>
   within_capacity \<lparr>start_ts = 200, num_samples = 2, size_b = 64, buffer_in_use = True,
           buffer_ts = [200, 300, 0, 0], buffer_values = [2, 3, 0, 0]\<rparr>"
proof -
  define c where "c = \<lparr>start_ts = 100, num_samples = 3, size_b = 64, buffer_in_use = True,
      buffer_ts = [100, 200, 300, 0], buffer_values = [1, 2, 3, 0]\<rparr>"
  define a where "a = \<lparr>start_ts = 100, num_samples = 4, size_b = 64, buffer_in_use = True,
                  buffer_ts = [100, 200, 300, 400], buffer_values = [1, 2, 3, 4]\<rparr>"
  define l where "l = \<lparr>start_ts = 100, num_samples = 2, size_b = 32, buffer_in_use = True,
           buffer_ts = [100, 200], buffer_values = [1, 2]\<rparr>"
  define r where "r = \<lparr>start_ts = 300, num_samples = 1, size_b = 16, buffer_in_use = True,
           buffer_ts = [300], buffer_values = [3]\<rparr>"
  define c' where "c' = \<lparr>start_ts = 200, num_samples = 2, size_b = 64, buffer_in_use = True,
           buffer_ts = [200, 300, 0, 0], buffer_values = [2, 3, 0, 0]\<rparr>"
  define uc where "uc = \<lparr>inChunk = c, sample = \<lparr>timestamp = 50, value_s = 9\<rparr>\<rparr>"
  have ok: "chunk_ok c"
    by (simp add: c_def chunk_ok_def chunk_inv_def ts_ascending_def within_capacity_def
        start_ts_cached_def buffers_hold_def capacity_allocated_def capacity_def
        timestamps_def count_def SAMPLE_SIZE_def)
  have tc: "timestamps c = [100, 200, 300]"
    by (simp add: c_def timestamps_def count_def)
  have mono: "\<forall>t \<in> set (timestamps c). t < 400"
    by (simp add: tc)
  have r1: "TurboGorilla_AddSampleOptimized c 400 4 = Inr (CR_OK, a)"
    unfolding c_def a_def by code_simp
  have r3: "TurboGorilla_SplitChunk (filled 0) (filled 0) c = Inr (l, r)"
    unfolding c_def l_def r_def by code_simp
  have r4: "TurboGorilla_DelRange (filled 0) c 0 150 = Inr (c', 1)"
    unfolding c_def c'_def by code_simp
  have uc_c: "inChunk uc = c" "timestamp (sample uc) = 50"
    by (simp_all add: uc_def)
  have cnt: "count c = 3"
    by (simp add: c_def count_def)
  have pre: "buffers_hold (inChunk uc)" "capacity_allocated (inChunk uc)"
    "count (inChunk uc) \<le> capacity (inChunk uc)" "count (inChunk uc) < 2147483648"
    "timestamp (sample uc) \<notin> set (timestamps (inChunk uc))"
    unfolding uc_c using chunk_okD(6,7,2) [OF ok] by (simp_all add: tc cnt)
  obtain cu where r2: "TurboGorilla_UpsertSample example_resolver (filled 0) uc DP_LAST =
        Inr (CR_OK, uc\<lparr>inChunk := cu\<rparr>, 1)"
    and tu: "timestamps cu =
        take (length (filter (\<lambda>t. t < timestamp (sample uc)) (timestamps (inChunk uc))))
          (timestamps (inChunk uc)) @ [timestamp (sample uc)] @
        drop (length (filter (\<lambda>t. t < timestamp (sample uc)) (timestamps (inChunk uc))))
          (timestamps (inChunk uc))"
    and su: "start_ts cu =
        (if length (filter (\<lambda>t. t < timestamp (sample uc)) (timestamps (inChunk uc))) = 0
         then timestamp (sample uc) else start_ts (inChunk uc))"
    using UpsertSample_absent [OF pre, of example_resolver "filled 0" DP_LAST] by metis
  have tu': "timestamps cu = [50, 100, 200, 300]" and su': "start_ts cu = 50"
    using tu su unfolding uc_c by (simp_all add: tc)
  note th = invariants_preserved [OF ok, where ts = 400 and v = 4 and a = a
      and uCtx = uc and handleDuplicateSample = example_resolver and mem = "filled 0"
      and pol = DP_LAST and uCtx' = "uc\<lparr>inChunk := cu\<rparr>" and k = 1
      and mem_new = "filled 0" and mem_re = "filled 0" and l = l and r = r
      and startTs = 0 and endTs = 150 and c' = c' and d = 1]
  have oks: "chunk_ok a" "chunk_ok cu" "chunk_ok l" "chunk_ok r" "chunk_ok c'"
    using th mono r1 r2 r3 r4 by (simp_all add: uc_def)
  have inv: "ts_ascending a" "within_capacity a" "ts_ascending cu" "within_capacity cu"
    "ts_ascending l" "within_capacity r" "ts_ascending c'" "within_capacity c'"
    using oks by (simp_all add: chunk_ok_def chunk_inv_def)
  have up: "\<exists>cu. TurboGorilla_UpsertSample example_resolver (filled 0) uc DP_LAST =
       Inr (CR_OK, \<lparr>inChunk = cu, sample = \<lparr>timestamp = 50, value_s = 9\<rparr>\<rparr>, 1) \<and>
     timestamps cu = [50, 100, 200, 300] \<and> start_ts cu = 50 \<and>
     ts_ascending cu \<and> within_capacity cu"
    using r2 tu' su' inv(3,4) by (intro exI [of _ cu]) (simp add: uc_def)
  show ?thesis
    using r1 inv(1,2) up r3 inv(5,6) r4 inv(7,8)
    unfolding c_def a_def l_def r_def c'_def uc_def
    by (intro conjI) assumption+
qed

end
